theory Spec2Isabelle
  imports Complex_Main "HOL-Library.Multiset"
begin

section \<open>Python exceptions as values\<close>

text \<open>
  The exceptions the poker code can raise: \<open>ValueError\<close> (raised by
  \<open>Card.__init__\<close> and by \<open>list.index\<close> on a missing element),
  \<open>IndexError\<close> (raised by \<open>list.pop\<close> on an empty list and by an index
  out of range), \<open>ZeroDivisionError\<close> and \<open>OverflowError\<close> (raised by \<open>/\<close>).
  A computation that may raise returns \<open>py_error + 'a\<close>.
\<close>

datatype py_error = ValueError | IndexError | ZeroDivisionError | OverflowError

section \<open>creation\_of\_deck.py: Card\<close>

text \<open>
  \<open>Card.RANKS\<close> and \<open>Card.SUITS\<close>. The four suit symbols are the code points
  U+2663 (clubs), U+2666 (diamonds), U+2665 (hearts) and U+2660 (spades); each is
  written here as its UTF-8 byte sequence, which keeps the four strings pairwise
  different.
\<close>

definition RANKS :: "string list" where
  "RANKS = [''2'', ''3'', ''4'', ''5'', ''6''] @ [''7'', ''8'', ''9'', ''10''] @
           [''J'', ''Q'', ''K'', ''A'']"

abbreviation clubs :: string where
  "clubs \<equiv> [CHR 0xE2, CHR 0x99, CHR 0xA3]"

abbreviation diamonds :: string where
  "diamonds \<equiv> [CHR 0xE2, CHR 0x99, CHR 0xA6]"

abbreviation hearts :: string where
  "hearts \<equiv> [CHR 0xE2, CHR 0x99, CHR 0xA5]"

abbreviation spades :: string where
  "spades \<equiv> [CHR 0xE2, CHR 0x99, CHR 0xA0]"

definition SUITS :: "string list" where
  "SUITS = [clubs, diamonds, hearts, spades]"

text \<open>A card object holds \<open>_rank\<close> and \<open>_suit\<close>; the properties \<open>rank\<close> and
  \<open>suit\<close> read them.\<close>

record card =
  rank :: string
  suit :: string

text \<open>\<open>Card.__init__\<close>: the rank is checked first, then the suit.\<close>

definition Card_init :: "string \<Rightarrow> string \<Rightarrow> py_error + card" where
  "Card_init r s =
     (if r \<notin> set RANKS then Inl ValueError
      else if s \<notin> set SUITS then Inl ValueError
      else Inr \<lparr>rank = r, suit = s\<rparr>)"

text \<open>\<open>list.index\<close>: the position of the first equal element, \<open>ValueError\<close> when
  there is none.\<close>

fun index_py :: "'a list \<Rightarrow> 'a \<Rightarrow> py_error + nat" where
  "index_py [] x = Inl ValueError"
| "index_py (y # ys) x =
     (if y = x then Inr 0
      else (case index_py ys x of Inl e \<Rightarrow> Inl e | Inr i \<Rightarrow> Inr (Suc i)))"

text \<open>\<open>Card.__eq__\<close>, \<open>Card.__lt__\<close> and \<open>Card.__gt__\<close>.\<close>

definition Card_eq :: "card \<Rightarrow> card \<Rightarrow> bool" where
  "Card_eq self other = (rank self = rank other)"

definition Card_lt :: "card \<Rightarrow> card \<Rightarrow> py_error + bool" where
  "Card_lt self other =
     (case index_py RANKS (rank self) of
        Inl e \<Rightarrow> Inl e
      | Inr i \<Rightarrow> (case index_py RANKS (rank other) of
                    Inl e \<Rightarrow> Inl e
                  | Inr j \<Rightarrow> Inr (i < j)))"

definition Card_gt :: "card \<Rightarrow> card \<Rightarrow> py_error + bool" where
  "Card_gt self other =
     (case index_py RANKS (rank self) of
        Inl e \<Rightarrow> Inl e
      | Inr i \<Rightarrow> (case index_py RANKS (rank other) of
                    Inl e \<Rightarrow> Inl e
                  | Inr j \<Rightarrow> Inr (i > j)))"

section \<open>creation\_of\_deck.py: Deck\<close>

text \<open>A deck object holds the list \<open>_cards\<close>; its methods mutate that list, so
  each of them returns the deck it leaves behind next to its result.\<close>

record deck =
  deck_cards :: "card list"

text \<open>A list comprehension whose element expression may raise: the elements are
  evaluated in order and the first exception ends the comprehension.\<close>

fun sequence_py :: "(py_error + 'a) list \<Rightarrow> py_error + 'a list" where
  "sequence_py [] = Inr []"
| "sequence_py (x # xs) =
     (case x of
        Inl e \<Rightarrow> Inl e
      | Inr v \<Rightarrow> (case sequence_py xs of Inl e \<Rightarrow> Inl e | Inr vs \<Rightarrow> Inr (v # vs)))"

text \<open>\<open>Deck.__init__\<close>:
  \<open>[Card(rank, suit) for suit in Card.SUITS for rank in Card.RANKS]\<close>.\<close>

definition Deck_init :: "py_error + deck" where
  "Deck_init =
     (case sequence_py (concat (map (\<lambda>s. map (\<lambda>r. Card_init r s) RANKS) SUITS)) of
        Inl e \<Rightarrow> Inl e
      | Inr cs \<Rightarrow> Inr \<lparr>deck_cards = cs\<rparr>)"

text \<open>
  \<open>Deck.shuffle\<close> calls \<open>random.shuffle\<close> of the standard library, which is the
  loop
  \<^verbatim>\<open>for i in reversed(range(1, len(x))): j = randbelow(i + 1); x[i], x[j] = x[j], x[i]\<close>.
  The generator is a parameter: \<open>rnd i\<close> is the number it draws at step \<open>i\<close>, and
  \<open>randbelow (i + 1)\<close> is that number reduced into \<open>0 .. i\<close>. The method returns
  \<open>None\<close>, here the unit value.
\<close>

fun shuffle_loop :: "(nat \<Rightarrow> nat) \<Rightarrow> nat \<Rightarrow> 'a list \<Rightarrow> 'a list" where
  "shuffle_loop rnd 0 x = x"
| "shuffle_loop rnd (Suc k) x =
     (let i = Suc k; j = rnd i mod (i + 1)
      in shuffle_loop rnd k (x[i := x ! j, j := x ! i]))"

definition shuffle :: "(nat \<Rightarrow> nat) \<Rightarrow> deck \<Rightarrow> unit \<times> deck" where
  "shuffle rnd d =
     ((), d\<lparr>deck_cards := shuffle_loop rnd (length (deck_cards d) - 1) (deck_cards d)\<rparr>)"

text \<open>\<open>Deck.deal\<close>: \<open>self._cards.pop(0)\<close>, which raises \<open>IndexError\<close> on an empty
  list and leaves it empty.\<close>

definition deal :: "deck \<Rightarrow> (py_error + card) \<times> deck" where
  "deal d =
     (case deck_cards d of
        [] \<Rightarrow> (Inl IndexError, d)
      | c # cs \<Rightarrow> (Inr c, d\<lparr>deck_cards := cs\<rparr>))"

text \<open>\<open>[deck.deal() for _ in range(n)]\<close>: \<open>n\<close> deals one after the other, the
  cards collected in the order dealt; an exception ends the comprehension and
  leaves the deck as the deals before it left it.\<close>

fun deal_range :: "nat \<Rightarrow> deck \<Rightarrow> (py_error + card list) \<times> deck" where
  "deal_range 0 d = (Inr [], d)"
| "deal_range (Suc n) d =
     (case deal d of
        (Inl e, d') \<Rightarrow> (Inl e, d')
      | (Inr c, d') \<Rightarrow>
          (case deal_range n d' of
             (Inl e, d'') \<Rightarrow> (Inl e, d'')
           | (Inr cs, d'') \<Rightarrow> (Inr (c # cs), d'')))"

section \<open>creation\_of\_game.py: Hand\<close>

text \<open>A hand object holds the list \<open>_cards\<close>.\<close>

record hand =
  hand_cards :: "card list"

text \<open>\<open>Hand.__init__\<close>: \<open>[deck.deal() for _ in range(5)]\<close>. The deck is
  mutated by every deal that succeeds, also when a later deal raises.\<close>

definition Hand_init :: "deck \<Rightarrow> (py_error + hand) \<times> deck" where
  "Hand_init d =
     (case deal_range 5 d of
        (Inl e, d') \<Rightarrow> (Inl e, d')
      | (Inr cs, d') \<Rightarrow> (Inr \<lparr>hand_cards = cs\<rparr>, d'))"

text \<open>\<open>xs[i]\<close> for an index that is not negative.\<close>

definition nth_py :: "'a list \<Rightarrow> nat \<Rightarrow> py_error + 'a" where
  "nth_py xs i = (if i < length xs then Inr (xs ! i) else Inl IndexError)"

text \<open>A \<open>for\<close> loop over a list of indices whose body updates one variable and
  may raise.\<close>

fun for_range :: "nat list \<Rightarrow> (nat \<Rightarrow> 's \<Rightarrow> py_error + 's) \<Rightarrow> 's \<Rightarrow> py_error + 's" where
  "for_range [] body s = Inr s"
| "for_range (i # is) body s =
     (case body i s of Inl e \<Rightarrow> Inl e | Inr s' \<Rightarrow> for_range is body s')"

text \<open>\<open>Hand.is_flush\<close>.\<close>

definition is_flush :: "hand \<Rightarrow> py_error + bool" where
  "is_flush self =
     (case nth_py (hand_cards self) 0 of
        Inl e \<Rightarrow> Inl e
      | Inr c0 \<Rightarrow> Inr (list_all (\<lambda>card. suit card = suit c0) (hand_cards self)))"

text \<open>\<open>Hand.num_matches\<close>. The body of the inner loop: \<open>and\<close> reads the two
  cards only when \<open>i != j\<close>.\<close>

definition num_matches_body :: "hand \<Rightarrow> nat \<Rightarrow> nat \<Rightarrow> int \<Rightarrow> py_error + int" where
  "num_matches_body self i j matches =
     (if i \<noteq> j then
        (case nth_py (hand_cards self) i of
           Inl e \<Rightarrow> Inl e
         | Inr ci \<Rightarrow>
             (case nth_py (hand_cards self) j of
                Inl e \<Rightarrow> Inl e
              | Inr cj \<Rightarrow> Inr (if rank ci = rank cj then matches + 1 else matches)))
      else Inr matches)"

definition num_matches :: "hand \<Rightarrow> py_error + int" where
  "num_matches self =
     for_range [0..<5]
       (\<lambda>i matches. for_range [0..<5] (\<lambda>j matches. num_matches_body self i j matches) matches)
       0"

text \<open>The classification properties, each a comparison of \<open>num_matches\<close>.\<close>

definition is_pair :: "hand \<Rightarrow> py_error + bool" where
  "is_pair self = (case num_matches self of Inl e \<Rightarrow> Inl e | Inr m \<Rightarrow> Inr (m = 2))"

definition is_2pair :: "hand \<Rightarrow> py_error + bool" where
  "is_2pair self = (case num_matches self of Inl e \<Rightarrow> Inl e | Inr m \<Rightarrow> Inr (m = 4))"

definition is_trips :: "hand \<Rightarrow> py_error + bool" where
  "is_trips self = (case num_matches self of Inl e \<Rightarrow> Inl e | Inr m \<Rightarrow> Inr (m = 6))"

definition is_quads :: "hand \<Rightarrow> py_error + bool" where
  "is_quads self = (case num_matches self of Inl e \<Rightarrow> Inl e | Inr m \<Rightarrow> Inr (m = 12))"

definition is_full_house :: "hand \<Rightarrow> py_error + bool" where
  "is_full_house self = (case num_matches self of Inl e \<Rightarrow> Inl e | Inr m \<Rightarrow> Inr (m = 8))"

text \<open>
  \<open>sorted(self.cards)\<close> copies the list and sorts the copy with \<open>list.sort\<close>,
  which compares elements with \<open><\<close> only, here \<open>Card.__lt__\<close>. For a list this
  short \<open>list.sort\<close> is a stable insertion sort: each element in turn (the pivot)
  is put into the sorted prefix before the first element it is below, so after
  the elements it is not below. The library finds that place by bisection; the
  model finds the same place by scanning from the left.
\<close>

fun insert_sorted :: "card \<Rightarrow> card list \<Rightarrow> py_error + card list" where
  "insert_sorted pivot [] = Inr [pivot]"
| "insert_sorted pivot (p # ps) =
     (case Card_lt pivot p of
        Inl e \<Rightarrow> Inl e
      | Inr b \<Rightarrow>
          if b then Inr (pivot # p # ps)
          else (case insert_sorted pivot ps of
                  Inl e \<Rightarrow> Inl e
                | Inr qs \<Rightarrow> Inr (p # qs)))"

fun sort_loop :: "card list \<Rightarrow> card list \<Rightarrow> py_error + card list" where
  "sort_loop prefix [] = Inr prefix"
| "sort_loop prefix (x # xs) =
     (case insert_sorted x prefix of
        Inl e \<Rightarrow> Inl e
      | Inr prefix' \<Rightarrow> sort_loop prefix' xs)"

definition sorted_py :: "card list \<Rightarrow> py_error + card list" where
  "sorted_py cs = sort_loop [] cs"

text \<open>\<open>Hand.is_straight\<close>. The subtraction is one of Python integers.\<close>

definition is_straight :: "hand \<Rightarrow> py_error + bool" where
  "is_straight self =
     (case sorted_py (hand_cards self) of
        Inl e \<Rightarrow> Inl e
      | Inr sorted_cards \<Rightarrow>
     (case nth_py sorted_cards 4 of
        Inl e \<Rightarrow> Inl e
      | Inr c4 \<Rightarrow>
     (case index_py RANKS (rank c4) of
        Inl e \<Rightarrow> Inl e
      | Inr high \<Rightarrow>
     (case nth_py sorted_cards 0 of
        Inl e \<Rightarrow> Inl e
      | Inr c0 \<Rightarrow>
     (case index_py RANKS (rank c0) of
        Inl e \<Rightarrow> Inl e
      | Inr low \<Rightarrow>
     (case num_matches self of
        Inl e \<Rightarrow> Inl e
      | Inr m \<Rightarrow> Inr (m = 0 \<and> int high - int low = 4)))))))"

subsection \<open>The names of the classes\<close>

text \<open>
  What the names of the classes say about a hand: the sizes of its groups of
  cards of one rank, in ascending order. No pair is \<open>[1, 1, 1, 1, 1]\<close>, one pair
  \<open>[1, 1, 1, 2]\<close>, two pair \<open>[1, 2, 2]\<close>, trips \<open>[1, 1, 3]\<close>, a full house
  \<open>[2, 3]\<close> and quads \<open>[1, 4]\<close>.
\<close>

definition rank_groups :: "card list \<Rightarrow> nat list" where
  "rank_groups cs = sort (map (count_list (map rank cs)) (remdups (map rank cs)))"

subsection \<open>The same property on a store of list objects\<close>

text \<open>
  Whether \<open>is_straight\<close> changes the hand's own list depends on which list object
  is sorted. A store holds the list objects, a reference is a position in it, and
  a hand is the reference to its \<open>_cards\<close>. \<open>sorted\<close> allocates a new list
  object, a copy of its argument, sorts that object in place and returns the
  reference to it.
\<close>

type_synonym store = "card list list"

definition sorted_store :: "store \<Rightarrow> nat \<Rightarrow> (py_error + nat) \<times> store" where
  "sorted_store st a =
     (let new = length st; st' = st @ [st ! a]
      in (case sorted_py (st' ! new) of
            Inl e \<Rightarrow> (Inl e, st')
          | Inr cs \<Rightarrow> (Inr new, st'[new := cs])))"

definition is_straight_store :: "store \<Rightarrow> nat \<Rightarrow> (py_error + bool) \<times> store" where
  "is_straight_store st self =
     (case sorted_store st self of
        (Inl e, st') \<Rightarrow> (Inl e, st')
      | (Inr sorted_cards, st') \<Rightarrow>
     (case nth_py (st' ! sorted_cards) 4 of
        Inl e \<Rightarrow> (Inl e, st')
      | Inr c4 \<Rightarrow>
     (case index_py RANKS (rank c4) of
        Inl e \<Rightarrow> (Inl e, st')
      | Inr high \<Rightarrow>
     (case nth_py (st' ! sorted_cards) 0 of
        Inl e \<Rightarrow> (Inl e, st')
      | Inr c0 \<Rightarrow>
     (case index_py RANKS (rank c0) of
        Inl e \<Rightarrow> (Inl e, st')
      | Inr low \<Rightarrow>
     (case num_matches \<lparr>hand_cards = st' ! self\<rparr> of
        Inl e \<Rightarrow> (Inl e, st')
      | Inr m \<Rightarrow> (Inr (m = 0 \<and> int high - int low = 4), st')))))))"

section \<open>creation\_of\_game.py: the simulations\<close>

text \<open>
  One pass of the loop body up to the test: a new deck, shuffled, and a hand
  dealt from it; \<open>rnd\<close> is what the generator draws during this pass.
\<close>

definition deal_hand :: "(nat \<Rightarrow> nat) \<Rightarrow> py_error + hand" where
  "deal_hand rnd =
     (case Deck_init of
        Inl e \<Rightarrow> Inl e
      | Inr deck \<Rightarrow>
          (case shuffle rnd deck of
             (_, deck') \<Rightarrow> fst (Hand_init deck')))"

text \<open>
  \<open>while matches < 1000: ...\<close> with the counters as the loop's state. The
  generator is a parameter: \<open>rnd k\<close> is what it draws during the pass that
  starts with \<open>trials = k\<close>. The loop may run forever, and then the result is
  \<open>None\<close>; an exception ends it with \<open>Some (Inl e)\<close>.
\<close>

partial_function (option) simulation_loop ::
  "(hand \<Rightarrow> py_error + bool) \<Rightarrow> (nat \<Rightarrow> nat \<Rightarrow> nat) \<Rightarrow> int \<Rightarrow> int \<Rightarrow> (py_error + int \<times> int) option"
where
  "simulation_loop target rnd matches trials =
     (if matches < 1000 then
        (case deal_hand (rnd (nat trials)) of
           Inl e \<Rightarrow> Some (Inl e)
         | Inr hand \<Rightarrow>
             (case target hand of
                Inl e \<Rightarrow> Some (Inl e)
              | Inr b \<Rightarrow>
                  simulation_loop target rnd (if b then matches + 1 else matches) (trials + 1)))
      else Some (Inr (matches, trials)))"

subsection \<open>True division of integers\<close>

text \<open>
  \<open>a / b\<close> on two Python integers is a float: the binary64 number nearest to
  the quotient, a tie going to the one with the even significand. A float is
  modelled by the real number it stands for. With \<open>2 ^ e \<le> \<bar>a\<bar> / \<bar>b\<bar> < 2 ^ (e + 1)\<close>,
  the floats around the quotient are the multiples of \<open>2 ^ p\<close>, where
  \<open>p = e - 52\<close> (53 significant bits) and not less than \<open>- 1074\<close> (the
  subnormal range); the quotient is rounded to a multiple \<open>m * 2 ^ p\<close>. A
  result of \<open>2 ^ 1024\<close> or more is no float, and the division raises
  \<open>OverflowError\<close>; division by 0 raises \<open>ZeroDivisionError\<close>.
\<close>

text \<open>\<open>int.bit_length\<close>.\<close>

fun bit_length :: "nat \<Rightarrow> nat" where
  "bit_length n = (if n = 0 then 0 else Suc (bit_length (n div 2)))"

declare bit_length.simps [simp del]

text \<open>The \<open>e\<close> with \<open>2 ^ e \<le> n / d < 2 ^ (e + 1)\<close>, for \<open>n\<close> and \<open>d\<close> above 0.\<close>

definition float_exponent :: "nat \<Rightarrow> nat \<Rightarrow> int" where
  "float_exponent n d =
     (let e = int (bit_length n) - int (bit_length d)
      in if n * 2 ^ nat (- e) < d * 2 ^ nat e then e - 1 else e)"

text \<open>The integer nearest to \<open>n / d\<close>, a tie going to the even one.\<close>

definition round_half_even :: "nat \<Rightarrow> nat \<Rightarrow> nat" where
  "round_half_even n d =
     (let q = n div d; r = n mod d
      in if 2 * r < d then q
         else if d < 2 * r then q + 1
         else if even q then q else q + 1)"

definition true_div :: "int \<Rightarrow> int \<Rightarrow> py_error + real" where
  "true_div a b =
     (if b = 0 then Inl ZeroDivisionError
      else if a = 0 then Inr 0
      else
        (let n = nat (abs a); d = nat (abs b);
             p = max (float_exponent n d - 52) (- 1074);
             m = round_half_even (n * 2 ^ nat (- p)) (d * 2 ^ nat p)
         in if 2 ^ 1024 * 2 ^ nat (- p) \<le> m * 2 ^ nat p then Inl OverflowError
            else Inr (real_of_int (sgn a * sgn b * int (m * 2 ^ nat p)) / real (2 ^ nat (- p)))))"

text \<open>\<open>100 * matches / trials\<close>: the product is an integer, the quotient a float.\<close>

definition estimated_probability :: "int \<Rightarrow> int \<Rightarrow> py_error + real" where
  "estimated_probability matches trials = true_div (100 * matches) trials"

text \<open>A whole simulation: the counters start at 0, the loop runs, and the
  estimate is computed from the counters it ends with.\<close>

definition simulation ::
  "(hand \<Rightarrow> py_error + bool) \<Rightarrow> (nat \<Rightarrow> nat \<Rightarrow> nat) \<Rightarrow> (py_error + real) option" where
  "simulation target rnd =
     (case simulation_loop target rnd 0 0 of
        None \<Rightarrow> None
      | Some (Inl e) \<Rightarrow> Some (Inl e)
      | Some (Inr (matches, trials)) \<Rightarrow> Some (estimated_probability matches trials))"

definition straight_simulation :: "(nat \<Rightarrow> nat \<Rightarrow> nat) \<Rightarrow> (py_error + real) option" where
  "straight_simulation rnd = simulation is_straight rnd"

definition full_house_simulation :: "(nat \<Rightarrow> nat \<Rightarrow> nat) \<Rightarrow> (py_error + real) option" where
  "full_house_simulation rnd = simulation is_full_house rnd"

text \<open>Whether the pass that starts with \<open>trials = k\<close> counts as a match: a hand
  is dealt and the target property is true of it.\<close>

definition pass_matches :: "(hand \<Rightarrow> py_error + bool) \<Rightarrow> (nat \<Rightarrow> nat \<Rightarrow> nat) \<Rightarrow> nat \<Rightarrow> bool" where
  "pass_matches target rnd k =
     (case deal_hand (rnd k) of
        Inl e \<Rightarrow> False
      | Inr hand \<Rightarrow> target hand = Inr True)"

section \<open>Cards\<close>

lemma length_RANKS: "length RANKS = 13"
  by (simp add: RANKS_def)

lemma distinct_RANKS: "distinct RANKS"
  by (simp add: RANKS_def)

lemma length_SUITS: "length SUITS = 4"
  by (simp add: SUITS_def)

lemma distinct_SUITS: "distinct SUITS"
  by (simp add: SUITS_def)

lemma index_py_nth: "distinct xs \<Longrightarrow> i < length xs \<Longrightarrow> index_py xs (xs ! i) = Inr i"
proof (induction xs arbitrary: i)
  case Nil
  then show ?case by simp
next
  case (Cons y ys)
  show ?case
  proof (cases i)
    case 0
    then show ?thesis by simp
  next
    case (Suc k)
    with Cons.prems have "k < length ys" "ys ! k \<noteq> y" "distinct ys"
      by auto
    with Cons.IH [of k] Suc show ?thesis
      by simp
  qed
qed

lemma index_py_notin: "x \<notin> set xs \<Longrightarrow> index_py xs x = Inl ValueError"
  by (induction xs) auto

lemma Card_init_Inr:
  "Card_init r s = Inr c \<longleftrightarrow> r \<in> set RANKS \<and> s \<in> set SUITS \<and> c = \<lparr>rank = r, suit = s\<rparr>"
  by (auto simp: Card_init_def)

text \<open>
  C7. For a rank of \<open>RANKS\<close> (13 different values) and a suit of \<open>SUITS\<close>
  (4 different values) the construction of a card succeeds, and the card's rank
  and suit are the values supplied. For a rank outside \<open>RANKS\<close> or a suit
  outside \<open>SUITS\<close> the construction raises \<open>ValueError\<close>, the error the
  specification calls InvalidValue.
\<close>

theorem Card_init_domain:
  "length RANKS = 13 \<and> distinct RANKS \<and> length SUITS = 4 \<and> distinct SUITS \<and>
   (r \<in> set RANKS \<and> s \<in> set SUITS \<longrightarrow>
      (\<exists>c. Card_init r s = Inr c \<and> rank c = r \<and> suit c = s)) \<and>
   (r \<notin> set RANKS \<or> s \<notin> set SUITS \<longrightarrow> Card_init r s = Inl ValueError)"
  by (auto simp: Card_init_def length_RANKS distinct_RANKS length_SUITS distinct_SUITS)

theorem Card_init_domain_witness:
  "(\<exists>c. Card_init ''A'' spades = Inr c \<and> rank c = ''A'' \<and>
        suit c = spades) \<and>
   Card_init ''1'' spades = Inl ValueError \<and>
   Card_init ''A'' ''S'' = Inl ValueError"
proof -
  have a: "''A'' \<in> set RANKS" "''1'' \<notin> set RANKS"
    by (simp_all add: RANKS_def)
  have s: "spades \<in> set SUITS" "''S'' \<notin> set SUITS"
    by (simp_all add: SUITS_def)
  show ?thesis
    using Card_init_domain [of "''A''" "spades"]
      Card_init_domain [of "''1''" "spades"]
      Card_init_domain [of "''A''" "''S''"] a s
    by blast
qed

text \<open>
  C8. Two cards that were constructed have ranks at positions \<open>i\<close> and \<open>j\<close> of
  the 13-value rank list. They compare equal exactly when their ranks are equal,
  whatever their suits, which is exactly when \<open>i = j\<close>; \<open>a < b\<close> holds exactly
  when \<open>i < j\<close> and \<open>a > b\<close> exactly when \<open>i > j\<close>. So the comparison is the
  order of the rank positions: no card is below itself, and \<open>a < b\<close> and
  \<open>b < c\<close> give \<open>a < c\<close>.
\<close>

theorem Card_compare_rank_index:
  assumes "Card_init ra sa = Inr a" and "Card_init rb sb = Inr b"
    and "Card_init rc sc = Inr c"
  shows "Card_eq a b = (ra = rb) \<and>
    (\<exists>i j. i < 13 \<and> j < 13 \<and> RANKS ! i = ra \<and> RANKS ! j = rb \<and>
       Card_eq a b = (i = j) \<and> Card_lt a b = Inr (i < j) \<and> Card_gt a b = Inr (i > j)) \<and>
    Card_lt a a = Inr False \<and>
    (Card_lt a b = Inr True \<and> Card_lt b c = Inr True \<longrightarrow> Card_lt a c = Inr True)"
proof -
  from assms have ra: "ra \<in> set RANKS" "rank a = ra" and rb: "rb \<in> set RANKS" "rank b = rb"
    and rc: "rc \<in> set RANKS" "rank c = rc"
    by (auto simp: Card_init_Inr)
  from ra(1) obtain i where i: "i < 13" "RANKS ! i = ra"
    by (auto simp: in_set_conv_nth length_RANKS)
  from rb(1) obtain j where j: "j < 13" "RANKS ! j = rb"
    by (auto simp: in_set_conv_nth length_RANKS)
  from rc(1) obtain k where k: "k < 13" "RANKS ! k = rc"
    by (auto simp: in_set_conv_nth length_RANKS)
  have ia: "index_py RANKS (rank a) = Inr i"
    using index_py_nth [OF distinct_RANKS, of i] i ra(2) by (simp add: length_RANKS)
  have ib: "index_py RANKS (rank b) = Inr j"
    using index_py_nth [OF distinct_RANKS, of j] j rb(2) by (simp add: length_RANKS)
  have ic: "index_py RANKS (rank c) = Inr k"
    using index_py_nth [OF distinct_RANKS, of k] k rc(2) by (simp add: length_RANKS)
  have eq: "(ra = rb) = (i = j)"
    using i j distinct_RANKS by (auto simp: nth_eq_iff_index_eq length_RANKS)
  have 1: "Card_eq a b = (ra = rb)"
    by (simp add: Card_eq_def ra(2) rb(2))
  have 2: "Card_lt a b = Inr (i < j)" "Card_gt a b = Inr (i > j)"
    by (simp_all add: Card_lt_def Card_gt_def ia ib)
  have 3: "Card_lt a a = Inr False"
    by (simp add: Card_lt_def ia)
  have 4: "Card_lt a b = Inr True \<and> Card_lt b c = Inr True \<longrightarrow> Card_lt a c = Inr True"
    by (auto simp: Card_lt_def ia ib ic)
  from 1 2 3 4 eq i j show ?thesis
    by blast
qed

theorem Card_compare_rank_index_witness:
  "Card_eq \<lparr>rank = ''10'', suit = clubs\<rparr>
           \<lparr>rank = ''J'', suit = clubs\<rparr> = False \<and>
   Card_lt \<lparr>rank = ''10'', suit = clubs\<rparr>
           \<lparr>rank = ''10'', suit = clubs\<rparr> = Inr False"
proof -
  have a: "Card_init ''10'' clubs
             = Inr \<lparr>rank = ''10'', suit = clubs\<rparr>"
    by (simp add: Card_init_def RANKS_def SUITS_def)
  have b: "Card_init ''J'' clubs
             = Inr \<lparr>rank = ''J'', suit = clubs\<rparr>"
    by (simp add: Card_init_def RANKS_def SUITS_def)
  show ?thesis
    using Card_compare_rank_index [OF a b b] by simp
qed

section \<open>Decks\<close>

lemma deal_range_take:
  "n \<le> length (deck_cards d) \<Longrightarrow>
   deal_range n d = (Inr (take n (deck_cards d)), d\<lparr>deck_cards := drop n (deck_cards d)\<rparr>)"
proof (induction n arbitrary: d)
  case 0
  then show ?case by simp
next
  case (Suc n)
  then obtain c cs where cs: "deck_cards d = c # cs"
    by (cases "deck_cards d") auto
  with Suc.prems have "n \<le> length (deck_cards (d\<lparr>deck_cards := cs\<rparr>))"
    by simp
  from Suc.IH [OF this] cs show ?case
    by (simp add: deal_def)
qed

lemma deal_range_short:
  "length (deck_cards d) < n \<Longrightarrow> deal_range n d = (Inl IndexError, d\<lparr>deck_cards := []\<rparr>)"
proof (induction n arbitrary: d)
  case 0
  then show ?case by simp
next
  case (Suc n)
  show ?case
  proof (cases "deck_cards d")
    case Nil
    then show ?thesis by (simp add: deal_def)
  next
    case (Cons c cs)
    with Suc.prems have "length (deck_cards (d\<lparr>deck_cards := cs\<rparr>)) < n"
      by simp
    from Suc.IH [OF this] Cons show ?thesis
      by (simp add: deal_def)
  qed
qed

lemma length_shuffle_loop: "length (shuffle_loop rnd k x) = length x"
  by (induction k arbitrary: x) (simp_all add: Let_def)

lemma mset_shuffle_loop: "k < length x \<Longrightarrow> mset (shuffle_loop rnd k x) = mset x"
proof (induction k arbitrary: x)
  case 0
  then show ?case by simp
next
  case (Suc k)
  let ?j = "rnd (Suc k) mod (Suc k + 1)"
  have "?j < Suc k + 1"
    by (rule mod_less_divisor) simp
  with Suc.prems have j: "?j < length x"
    by linarith
  have "mset (x[Suc k := x ! ?j, ?j := x ! Suc k]) = mset x"
    using mset_swap [OF j Suc.prems] .
  moreover have "k < length (x[Suc k := x ! ?j, ?j := x ! Suc k])"
    using Suc.prems by simp
  ultimately show ?case
    using Suc.IH [of "x[Suc k := x ! ?j, ?j := x ! Suc k]"] by (simp add: Let_def)
qed

lemma mset_shuffle: "mset (deck_cards (snd (shuffle rnd d))) = mset (deck_cards d)"
proof (cases "deck_cards d")
  case Nil
  then show ?thesis by (simp add: shuffle_def)
next
  case (Cons c cs)
  then show ?thesis by (simp add: shuffle_def mset_shuffle_loop)
qed

lemma sequence_py_map_Inr: "sequence_py (map Inr xs) = Inr xs"
  by (induction xs) auto

lemma Deck_cards:
  "Deck_init = Inr \<lparr>deck_cards = concat (map (\<lambda>s. map (\<lambda>r. \<lparr>rank = r, suit = s\<rparr>) RANKS) SUITS)\<rparr>"
proof -
  have row: "map (\<lambda>r. Card_init r s) RANKS = map Inr (map (\<lambda>r. \<lparr>rank = r, suit = s\<rparr>) RANKS)"
    if "s \<in> set SUITS" for s
    using that by (simp add: Card_init_def)
  have rows: "map (\<lambda>s. map (\<lambda>r. Card_init r s) RANKS) SUITS
        = map (\<lambda>s. map Inr (map (\<lambda>r. \<lparr>rank = r, suit = s\<rparr>) RANKS)) SUITS"
    by (rule map_cong [OF refl]) (rule row)
  have "concat (map (\<lambda>s. map Inr (map (\<lambda>r. \<lparr>rank = r, suit = s\<rparr>) RANKS)) SUITS)
        = map Inr (concat (map (\<lambda>s. map (\<lambda>r. \<lparr>rank = r, suit = s\<rparr>) RANKS) SUITS))"
    by (simp only: map_concat map_map comp_def)
  with rows have "concat (map (\<lambda>s. map (\<lambda>r. Card_init r s) RANKS) SUITS)
        = map Inr (concat (map (\<lambda>s. map (\<lambda>r. \<lparr>rank = r, suit = s\<rparr>) RANKS) SUITS))"
    by (simp only:)
  then show ?thesis
    by (simp add: Deck_init_def sequence_py_map_Inr)
qed

lemma Deck_card_suit:
  "Deck_init = Inr D \<Longrightarrow> c \<in> set (deck_cards D) \<Longrightarrow> rank c \<in> set RANKS \<and> suit c \<in> set SUITS"
  by (auto simp: Deck_cards)

text \<open>
  C5. On a deck that is not empty \<open>deal\<close> returns the card at the front and
  leaves the rest, one card fewer. \<open>n\<close> deals one after the other, on a deck of
  at least \<open>n\<close> cards, return its first \<open>n\<close> cards in their order and leave
  the cards behind them. On an empty deck \<open>deal\<close> returns no card: it raises
  \<open>IndexError\<close>, the error of \<open>pop\<close> on an empty list, which is what the
  specification calls EmptyResource.
\<close>

theorem deal_front:
  "(deck_cards d \<noteq> [] \<longrightarrow>
      deal d = (Inr (hd (deck_cards d)), d\<lparr>deck_cards := tl (deck_cards d)\<rparr>) \<and>
      length (deck_cards (snd (deal d))) + 1 = length (deck_cards d)) \<and>
   (n \<le> length (deck_cards d) \<longrightarrow>
      deal_range n d = (Inr (take n (deck_cards d)), d\<lparr>deck_cards := drop n (deck_cards d)\<rparr>)) \<and>
   (deck_cards d = [] \<longrightarrow> deal d = (Inl IndexError, d))"
  using deal_range_take [of n d]
  by (cases "deck_cards d") (auto simp: deal_def)

theorem deal_front_witness:
  "deal \<lparr>deck_cards = [\<lparr>rank = ''K'', suit = spades\<rparr>, \<lparr>rank = ''A'', suit = spades\<rparr>]\<rparr>
     = (Inr \<lparr>rank = ''K'', suit = spades\<rparr>, \<lparr>deck_cards = [\<lparr>rank = ''A'', suit = spades\<rparr>]\<rparr>) \<and>
   deal_range 2 \<lparr>deck_cards = [\<lparr>rank = ''K'', suit = spades\<rparr>, \<lparr>rank = ''A'', suit = spades\<rparr>]\<rparr>
     = (Inr [\<lparr>rank = ''K'', suit = spades\<rparr>, \<lparr>rank = ''A'', suit = spades\<rparr>], \<lparr>deck_cards = []\<rparr>) \<and>
   deal \<lparr>deck_cards = []\<rparr> = (Inl IndexError, \<lparr>deck_cards = []\<rparr>)"
  using deal_front [of "\<lparr>deck_cards = [\<lparr>rank = ''K'', suit = spades\<rparr>, \<lparr>rank = ''A'', suit = spades\<rparr>]\<rparr>" 2]
    deal_front [of "\<lparr>deck_cards = []\<rparr>" 0]
  by simp

lemma Deck_cards_length:
  "length (concat (map (\<lambda>s. map (\<lambda>r. \<lparr>rank = r, suit = s\<rparr>) RANKS) SUITS)) = 52"
  by (simp add: RANKS_def SUITS_def)

lemma Deck_cards_distinct:
  "distinct (concat (map (\<lambda>s. map (\<lambda>r. \<lparr>rank = r, suit = s\<rparr>) RANKS) SUITS))"
  by (simp add: RANKS_def SUITS_def)

lemma Deck_cards_set:
  "set (concat (map (\<lambda>s. map (\<lambda>r. \<lparr>rank = r, suit = s\<rparr>) RANKS) SUITS))
     = {c. rank c \<in> set RANKS \<and> suit c \<in> set SUITS}"
proof (rule set_eqI)
  fix c :: card
  obtain r s where c: "c = \<lparr>rank = r, suit = s\<rparr>"
    by (cases c) simp
  show "c \<in> set (concat (map (\<lambda>s. map (\<lambda>r. \<lparr>rank = r, suit = s\<rparr>) RANKS) SUITS))
     \<longleftrightarrow> c \<in> {c. rank c \<in> set RANKS \<and> suit c \<in> set SUITS}"
    unfolding c by (simp add: image_iff)
qed

text \<open>
  C6. The construction of a deck succeeds, and the new deck holds 52 cards, no
  two of them the same, and they are all the cards with a rank of \<open>RANKS\<close> and
  a suit of \<open>SUITS\<close>. Whatever the generator draws, \<open>shuffle\<close> returns no value
  and leaves a permutation of the cards the deck held: the same cards, as many
  of each, and so the same 52 on a new deck.
\<close>

theorem Deck_init_shuffle:
  "\<exists>D. Deck_init = Inr D \<and> length (deck_cards D) = 52 \<and> distinct (deck_cards D) \<and>
        set (deck_cards D) = {c. rank c \<in> set RANKS \<and> suit c \<in> set SUITS} \<and>
        (\<forall>rnd. fst (shuffle rnd D) = () \<and>
               mset (deck_cards (snd (shuffle rnd D))) = mset (deck_cards D) \<and>
               set (deck_cards (snd (shuffle rnd D))) = set (deck_cards D) \<and>
               length (deck_cards (snd (shuffle rnd D))) = 52) \<and>
        (\<forall>rnd d. mset (deck_cards (snd (shuffle rnd d))) = mset (deck_cards d))"
proof -
  define D where "D = \<lparr>deck_cards = concat (map (\<lambda>s. map (\<lambda>r. \<lparr>rank = r, suit = s\<rparr>) RANKS) SUITS)\<rparr>"
  have init: "Deck_init = Inr D"
    by (simp add: D_def Deck_cards)
  have len: "length (deck_cards D) = 52"
    by (simp add: D_def Deck_cards_length)
  have dist: "distinct (deck_cards D)"
    by (simp add: D_def Deck_cards_distinct)
  have cards: "set (deck_cards D) = {c. rank c \<in> set RANKS \<and> suit c \<in> set SUITS}"
    by (simp only: D_def deck.simps Deck_cards_set)
  have sh: "fst (shuffle rnd D) = () \<and>
      mset (deck_cards (snd (shuffle rnd D))) = mset (deck_cards D) \<and>
      set (deck_cards (snd (shuffle rnd D))) = set (deck_cards D) \<and>
      length (deck_cards (snd (shuffle rnd D))) = 52" for rnd
  proof -
    have m: "mset (deck_cards (snd (shuffle rnd D))) = mset (deck_cards D)"
      by (rule mset_shuffle)
    have "set (deck_cards (snd (shuffle rnd D))) = set (deck_cards D)"
      by (rule mset_eq_setD [OF m])
    moreover have "length (deck_cards (snd (shuffle rnd D))) = length (deck_cards D)"
      by (rule mset_eq_length [OF m])
    ultimately show ?thesis
      using m len by simp
  qed
  have "\<forall>rnd d. mset (deck_cards (snd (shuffle rnd d))) = mset (deck_cards d)"
    by (simp add: mset_shuffle)
  with init len dist cards sh show ?thesis
    by blast
qed

text \<open>
  C4 as the code has it. On a deck of at least five cards the construction of a
  hand succeeds: the hand is the first five cards of the deck, in their order,
  and the deck is left with the cards behind them. On a deck of fewer than five
  cards the construction raises \<open>IndexError\<close>, and the deals made before the
  failing one stay made: the deck is left empty.
\<close>

theorem Hand_init_deals_five:
  "(5 \<le> length (deck_cards d) \<longrightarrow>
      Hand_init d = (Inr \<lparr>hand_cards = take 5 (deck_cards d)\<rparr>,
                     d\<lparr>deck_cards := drop 5 (deck_cards d)\<rparr>)) \<and>
   (length (deck_cards d) < 5 \<longrightarrow> Hand_init d = (Inl IndexError, d\<lparr>deck_cards := []\<rparr>))"
  by (simp add: Hand_init_def deal_range_take deal_range_short)

theorem Hand_init_deals_five_witness:
  "Hand_init \<lparr>deck_cards = [\<lparr>rank = ''9'', suit = spades\<rparr>, \<lparr>rank = ''10'', suit = spades\<rparr>,
       \<lparr>rank = ''J'', suit = spades\<rparr>, \<lparr>rank = ''Q'', suit = spades\<rparr>, \<lparr>rank = ''K'', suit = spades\<rparr>,
       \<lparr>rank = ''A'', suit = spades\<rparr>]\<rparr>
     = (Inr \<lparr>hand_cards = [\<lparr>rank = ''9'', suit = spades\<rparr>, \<lparr>rank = ''10'', suit = spades\<rparr>,
          \<lparr>rank = ''J'', suit = spades\<rparr>, \<lparr>rank = ''Q'', suit = spades\<rparr>, \<lparr>rank = ''K'', suit = spades\<rparr>]\<rparr>,
        \<lparr>deck_cards = [\<lparr>rank = ''A'', suit = spades\<rparr>]\<rparr>) \<and>
   Hand_init \<lparr>deck_cards = [\<lparr>rank = ''K'', suit = spades\<rparr>, \<lparr>rank = ''A'', suit = spades\<rparr>]\<rparr>
     = (Inl IndexError, \<lparr>deck_cards = []\<rparr>)"
  using Hand_init_deals_five [of "\<lparr>deck_cards = [\<lparr>rank = ''9'', suit = spades\<rparr>,
       \<lparr>rank = ''10'', suit = spades\<rparr>, \<lparr>rank = ''J'', suit = spades\<rparr>, \<lparr>rank = ''Q'', suit = spades\<rparr>,
       \<lparr>rank = ''K'', suit = spades\<rparr>, \<lparr>rank = ''A'', suit = spades\<rparr>]\<rparr>"]
    Hand_init_deals_five [of "\<lparr>deck_cards = [\<lparr>rank = ''K'', suit = spades\<rparr>, \<lparr>rank = ''A'', suit = spades\<rparr>]\<rparr>"]
  by simp

text \<open>The claim as it was stated fails: a deck of two cards is emptied by the
  construction that fails on it.\<close>

theorem Hand_init_atomic_counterexample:
  "fst (Hand_init \<lparr>deck_cards = [\<lparr>rank = ''K'', suit = spades\<rparr>, \<lparr>rank = ''A'', suit = spades\<rparr>]\<rparr>)
     = Inl IndexError \<and>
   snd (Hand_init \<lparr>deck_cards = [\<lparr>rank = ''K'', suit = spades\<rparr>, \<lparr>rank = ''A'', suit = spades\<rparr>]\<rparr>)
     \<noteq> \<lparr>deck_cards = [\<lparr>rank = ''K'', suit = spades\<rparr>, \<lparr>rank = ''A'', suit = spades\<rparr>]\<rparr>"
  by (simp add: Hand_init_def deal_def numeral_eq_Suc)

section \<open>Hands\<close>

lemma for_range_sum:
  fixes f :: "nat \<Rightarrow> int"
  assumes "\<And>i s. i \<in> set is \<Longrightarrow> body i s = Inr (s + f i)"
  shows "for_range is body s = Inr (s + sum_list (map f is))"
  using assms
proof (induction "is" arbitrary: s)
  case Nil
  then show ?case by simp
next
  case (Cons i "is")
  have "body i s = Inr (s + f i)"
    by (rule Cons.prems) simp
  moreover have "for_range is body (s + f i) = Inr (s + f i + sum_list (map f is))"
    by (rule Cons.IH) (simp add: Cons.prems)
  ultimately show ?case
    by (simp add: add.assoc)
qed

lemma num_matches_body_Inr:
  "i < length (hand_cards h) \<Longrightarrow> j < length (hand_cards h) \<Longrightarrow>
   num_matches_body h i j m =
     Inr (m + of_bool (i \<noteq> j \<and> rank (hand_cards h ! i) = rank (hand_cards h ! j)))"
  by (simp add: num_matches_body_def nth_py_def)

lemma num_matches_sum:
  assumes "length (hand_cards h) = 5"
  shows "num_matches h =
    Inr (\<Sum>i\<leftarrow>[0..<5]. \<Sum>j\<leftarrow>[0..<5].
           of_bool (i \<noteq> j \<and> rank (hand_cards h ! i) = rank (hand_cards h ! j)))"
proof -
  let ?f = "\<lambda>i j. of_bool (i \<noteq> j \<and> rank (hand_cards h ! i) = rank (hand_cards h ! j)) :: int"
  have inner: "for_range [0..<5] (\<lambda>j matches. num_matches_body h i j matches) m
      = Inr (m + (\<Sum>j\<leftarrow>[0..<5]. ?f i j))" if "i \<in> set [0..<5]" for i m
    by (rule for_range_sum) (use that assms in \<open>simp add: num_matches_body_Inr\<close>)
  have "num_matches h = Inr (0 + (\<Sum>i\<leftarrow>[0..<5]. \<Sum>j\<leftarrow>[0..<5]. ?f i j))"
    unfolding num_matches_def by (rule for_range_sum) (rule inner)
  then show ?thesis by simp
qed

lemma num_matches_card:
  assumes "length (hand_cards h) = 5"
  shows "num_matches h =
    Inr (int (card {(i, j). i < 5 \<and> j < 5 \<and> i \<noteq> j \<and>
                     rank (hand_cards h ! i) = rank (hand_cards h ! j)}))"
proof -
  let ?P = "\<lambda>p. fst p \<noteq> snd p \<and> rank (hand_cards h ! fst p) = rank (hand_cards h ! snd p)"
  have "(\<Sum>i\<leftarrow>[0..<5]. \<Sum>j\<leftarrow>[0..<5].
           of_bool (i \<noteq> j \<and> rank (hand_cards h ! i) = rank (hand_cards h ! j)) :: int)
      = (\<Sum>i\<in>{0..<5}. \<Sum>j\<in>{0..<5}. of_bool (?P (i, j)))"
    by (simp add: interv_sum_list_conv_sum_set_nat)
  also have "\<dots> = (\<Sum>p\<in>{0..<5} \<times> {0..<5}. of_bool (?P p))"
    by (simp add: sum.cartesian_product')
  also have "\<dots> = int (card (({0..<5} \<times> {0..<5}) \<inter> {p. ?P p}))"
    by (rule sum_of_bool_eq) simp_all
  also have "({0..<5} \<times> {0..<5}) \<inter> {p. ?P p}
      = {(i, j). i < 5 \<and> j < 5 \<and> i \<noteq> j \<and> rank (hand_cards h ! i) = rank (hand_cards h ! j)}"
    by auto
  finally show ?thesis
    using num_matches_sum [OF assms] by simp
qed

lemma upt5: "[0..<5] = [0, 1, 2, 3, 4]"
  by (simp add: upt_rec)

lemma num_matches_five:
  "num_matches \<lparr>hand_cards = [a, b, c, d, e]\<rparr> =
    Inr (2 * (of_bool (rank a = rank b) + of_bool (rank a = rank c) + of_bool (rank a = rank d)
      + of_bool (rank a = rank e) + of_bool (rank b = rank c) + of_bool (rank b = rank d)
      + of_bool (rank b = rank e) + of_bool (rank c = rank d) + of_bool (rank c = rank e)
      + of_bool (rank d = rank e)))"
  by (simp add: num_matches_sum upt5 of_bool_def eq_commute [of "rank b" "rank a"]
    eq_commute [of "rank c" "rank a"] eq_commute [of "rank d" "rank a"] eq_commute [of "rank e" "rank a"]
    eq_commute [of "rank c" "rank b"] eq_commute [of "rank d" "rank b"] eq_commute [of "rank e" "rank b"]
    eq_commute [of "rank d" "rank c"] eq_commute [of "rank e" "rank c"] eq_commute [of "rank e" "rank d"])

lemma five_cards_not_one_rank:
  fixes cs :: "card list"
  assumes d: "distinct cs" and l: "length cs = 5" and s: "suit ` set cs \<subseteq> set SUITS"
    and r: "\<And>x y. x \<in> set cs \<Longrightarrow> y \<in> set cs \<Longrightarrow> rank x = rank y"
  shows False
proof -
  have "inj_on suit (set cs)"
  proof (rule inj_onI)
    fix x y assume "x \<in> set cs" "y \<in> set cs" "suit x = suit y"
    with r [of x y] show "x = y" by (cases x, cases y) simp
  qed
  then have "card (suit ` set cs) = 5"
    using d l by (simp add: card_image distinct_card)
  moreover have "card (suit ` set cs) \<le> card (set SUITS)"
    by (rule card_mono) (use s in simp_all)
  moreover have "card (set SUITS) \<le> 4"
    using card_length [of SUITS] by (simp add: length_SUITS)
  ultimately show False by simp
qed

lemma pairs_groups:
  "((2::int) * (of_bool (rank a = rank b) + of_bool (rank a = rank c) + of_bool (rank a = rank d)
      + of_bool (rank a = rank e) + of_bool (rank b = rank c) + of_bool (rank b = rank d)
      + of_bool (rank b = rank e) + of_bool (rank c = rank d) + of_bool (rank c = rank e)
      + of_bool (rank d = rank e)), rank_groups [a, b, c, d, e])
    \<in> {(0, [1, 1, 1, 1, 1]), (2, [1, 1, 1, 2]), (4, [1, 2, 2]), (6, [1, 1, 3]), (8, [2, 3]),
        (12, [1, 4]), (20, [5])}"
  unfolding rank_groups_def
  by (cases "rank a = rank b"; cases "rank a = rank c"; cases "rank a = rank d";
      cases "rank a = rank e"; cases "rank b = rank c"; cases "rank b = rank d";
      cases "rank b = rank e"; cases "rank c = rank d"; cases "rank c = rank e";
      cases "rank d = rank e"; simp)

text \<open>
  C1. A hand of five cards of a deck, no two of them the same card, has a
  \<open>num_matches\<close>, and it is the number of pairs of positions \<open>(i, j)\<close> with
  \<open>i \<noteq> j\<close> whose cards have the same rank. That number is one of 0, 2, 4, 6,
  8 and 12, and it is 0 for a hand with no pair, 2 for one pair, 4 for two pair,
  6 for trips, 8 for a full house and 12 for quads.
\<close>

theorem num_matches_values:
  assumes D: "Deck_init = Inr D" and len: "length (hand_cards h) = 5"
    and dist: "distinct (hand_cards h)" and sub: "set (hand_cards h) \<subseteq> set (deck_cards D)"
  shows "\<exists>m. num_matches h = Inr m \<and>
    m = int (card {(i, j). i < 5 \<and> j < 5 \<and> i \<noteq> j \<and>
                    rank (hand_cards h ! i) = rank (hand_cards h ! j)}) \<and>
    m \<in> {0, 2, 4, 6, 8, 12} \<and>
    (m, rank_groups (hand_cards h)) \<in>
      {(0, [1, 1, 1, 1, 1]), (2, [1, 1, 1, 2]), (4, [1, 2, 2]), (6, [1, 1, 3]), (8, [2, 3]),
       (12, [1, 4])}"
proof -
  from len obtain a b c d e where cs: "hand_cards h = [a, b, c, d, e]"
    by (auto simp: length_Suc_conv numeral_eq_Suc)
  then have h: "h = \<lparr>hand_cards = [a, b, c, d, e]\<rparr>"
    by (cases h) simp
  define m :: int where "m = 2 * (of_bool (rank a = rank b) + of_bool (rank a = rank c)
      + of_bool (rank a = rank d) + of_bool (rank a = rank e) + of_bool (rank b = rank c)
      + of_bool (rank b = rank d) + of_bool (rank b = rank e) + of_bool (rank c = rank d)
      + of_bool (rank c = rank e) + of_bool (rank d = rank e))"
  have nm: "num_matches h = Inr m"
    unfolding m_def by (subst h) (rule num_matches_five)
  have suits: "suit ` set (hand_cards h) \<subseteq> set SUITS"
    using sub Deck_card_suit [OF D] by auto
  have "\<not> (rank a = rank b \<and> rank a = rank c \<and> rank a = rank d \<and> rank a = rank e)"
  proof
    assume "rank a = rank b \<and> rank a = rank c \<and> rank a = rank d \<and> rank a = rank e"
    then have "\<And>x y. x \<in> set (hand_cards h) \<Longrightarrow> y \<in> set (hand_cards h) \<Longrightarrow> rank x = rank y"
      unfolding cs by auto
    from five_cards_not_one_rank [OF dist len suits this] show False .
  qed
  then have "m \<noteq> 20"
    unfolding m_def by (auto simp: of_bool_def split: if_splits)
  moreover have "(m, rank_groups [a, b, c, d, e])
    \<in> {(0, [1, 1, 1, 1, 1]), (2, [1, 1, 1, 2]), (4, [1, 2, 2]), (6, [1, 1, 3]), (8, [2, 3]),
        (12, [1, 4]), (20, [5])}"
    unfolding m_def by (rule pairs_groups)
  ultimately have g: "(m, rank_groups (hand_cards h)) \<in>
      {(0, [1, 1, 1, 1, 1]), (2, [1, 1, 1, 2]), (4, [1, 2, 2]), (6, [1, 1, 3]), (8, [2, 3]),
       (12, [1, 4])}"
    unfolding cs by simp
  then have v: "m \<in> {0, 2, 4, 6, 8, 12}"
    by auto
  have "Inr m = Inr (int (card {(i, j). i < 5 \<and> j < 5 \<and> i \<noteq> j \<and>
                    rank (hand_cards h ! i) = rank (hand_cards h ! j)}))"
    using num_matches_card [OF len] nm by simp
  then have "m = int (card {(i, j). i < 5 \<and> j < 5 \<and> i \<noteq> j \<and>
                    rank (hand_cards h ! i) = rank (hand_cards h ! j)})"
    by simp
  with nm v g show ?thesis
    by blast
qed

theorem num_matches_values_witness:
  "\<exists>m. num_matches \<lparr>hand_cards = [\<lparr>rank = ''2'', suit = clubs\<rparr>, \<lparr>rank = ''2'', suit = diamonds\<rparr>,
      \<lparr>rank = ''2'', suit = hearts\<rparr>, \<lparr>rank = ''3'', suit = clubs\<rparr>,
      \<lparr>rank = ''3'', suit = diamonds\<rparr>]\<rparr> = Inr m \<and>
     m \<in> {0, 2, 4, 6, 8, 12} \<and>
     (m, rank_groups [\<lparr>rank = ''2'', suit = clubs\<rparr>, \<lparr>rank = ''2'', suit = diamonds\<rparr>,
      \<lparr>rank = ''2'', suit = hearts\<rparr>, \<lparr>rank = ''3'', suit = clubs\<rparr>,
      \<lparr>rank = ''3'', suit = diamonds\<rparr>]) \<in>
       {(0, [1, 1, 1, 1, 1]), (2, [1, 1, 1, 2]), (4, [1, 2, 2]), (6, [1, 1, 3]), (8, [2, 3]),
        (12, [1, 4])}"
proof -
  let ?h = "\<lparr>hand_cards = [\<lparr>rank = ''2'', suit = clubs\<rparr>, \<lparr>rank = ''2'', suit = diamonds\<rparr>,
      \<lparr>rank = ''2'', suit = hearts\<rparr>, \<lparr>rank = ''3'', suit = clubs\<rparr>,
      \<lparr>rank = ''3'', suit = diamonds\<rparr>]\<rparr>"
  have 1: "length (hand_cards ?h) = 5"
    by simp
  have 2: "distinct (hand_cards ?h)"
    by simp
  have 3: "set (hand_cards ?h) \<subseteq> set (deck_cards
      \<lparr>deck_cards = concat (map (\<lambda>s. map (\<lambda>r. \<lparr>rank = r, suit = s\<rparr>) RANKS) SUITS)\<rparr>)"
    by (simp add: RANKS_def SUITS_def)
  from num_matches_values [OF Deck_cards 1 2 3] show ?thesis
    by simp
qed

text \<open>
  C10. On a hand of five cards \<open>num_matches\<close> has a value \<open>m\<close>, and \<open>is_pair\<close>,
  \<open>is_2pair\<close>, \<open>is_trips\<close>, \<open>is_full_house\<close> and \<open>is_quads\<close> are the tests
  \<open>m = 2\<close>, \<open>m = 4\<close>, \<open>m = 6\<close>, \<open>m = 8\<close> and \<open>m = 12\<close>; so at most one of
  the five is true.
\<close>

theorem classification_exclusive:
  assumes "length (hand_cards h) = 5"
  shows "\<exists>m. num_matches h = Inr m \<and> is_pair h = Inr (m = 2) \<and> is_2pair h = Inr (m = 4) \<and>
    is_trips h = Inr (m = 6) \<and> is_full_house h = Inr (m = 8) \<and> is_quads h = Inr (m = 12) \<and>
    length (filter (\<lambda>p. p h = Inr True) [is_pair, is_2pair, is_trips, is_full_house, is_quads]) \<le> 1"
proof -
  from num_matches_sum [OF assms] obtain m where m: "num_matches h = Inr m"
    by blast
  then show ?thesis
    by (simp add: is_pair_def is_2pair_def is_trips_def is_full_house_def is_quads_def)
qed

theorem classification_exclusive_witness:
  "\<exists>m. num_matches \<lparr>hand_cards = [\<lparr>rank = ''2'', suit = clubs\<rparr>, \<lparr>rank = ''2'', suit = diamonds\<rparr>,
          \<lparr>rank = ''3'', suit = clubs\<rparr>, \<lparr>rank = ''3'', suit = diamonds\<rparr>, \<lparr>rank = ''3'', suit = hearts\<rparr>]\<rparr> = Inr m \<and>
    is_full_house \<lparr>hand_cards = [\<lparr>rank = ''2'', suit = clubs\<rparr>, \<lparr>rank = ''2'', suit = diamonds\<rparr>,
          \<lparr>rank = ''3'', suit = clubs\<rparr>, \<lparr>rank = ''3'', suit = diamonds\<rparr>, \<lparr>rank = ''3'', suit = hearts\<rparr>]\<rparr> = Inr (m = 8)"
  using classification_exclusive [of "\<lparr>hand_cards = [\<lparr>rank = ''2'', suit = clubs\<rparr>, \<lparr>rank = ''2'', suit = diamonds\<rparr>,
          \<lparr>rank = ''3'', suit = clubs\<rparr>, \<lparr>rank = ''3'', suit = diamonds\<rparr>, \<lparr>rank = ''3'', suit = hearts\<rparr>]\<rparr>"]
  by auto

lemma sorted_store_result:
  "sorted_store st a =
     (case sorted_py (st ! a) of
        Inl e \<Rightarrow> (Inl e, st @ [st ! a])
      | Inr cs \<Rightarrow> (Inr (length st), st @ [cs]))"
  by (simp add: sorted_store_def Let_def split: sum.splits)

text \<open>
  C9. \<open>is_straight\<close> on a hand whose list lives in a store leaves every list
  object of the store as it was, the hand's own list among them: the list that
  is sorted is a new object. Its result is the one computed on the hand's list.
\<close>

theorem is_straight_store_frame:
  assumes "self < length st"
  shows "take (length st) (snd (is_straight_store st self)) = st \<and>
    snd (is_straight_store st self) ! self = st ! self \<and>
    fst (is_straight_store st self) = is_straight \<lparr>hand_cards = st ! self\<rparr>"
  using assms
  by (simp add: is_straight_store_def is_straight_def sorted_store_result nth_append
      split: sum.splits)

theorem is_straight_store_frame_witness:
  "is_straight_store
     [[\<lparr>rank = ''A'', suit = spades\<rparr>, \<lparr>rank = ''2'', suit = diamonds\<rparr>],
      [\<lparr>rank = ''K'', suit = clubs\<rparr>, \<lparr>rank = ''5'', suit = hearts\<rparr>,
       \<lparr>rank = ''K'', suit = diamonds\<rparr>, \<lparr>rank = ''2'', suit = clubs\<rparr>,
       \<lparr>rank = ''5'', suit = spades\<rparr>]] 1
   = (Inr False,
      [[\<lparr>rank = ''A'', suit = spades\<rparr>, \<lparr>rank = ''2'', suit = diamonds\<rparr>],
       [\<lparr>rank = ''K'', suit = clubs\<rparr>, \<lparr>rank = ''5'', suit = hearts\<rparr>,
       \<lparr>rank = ''K'', suit = diamonds\<rparr>, \<lparr>rank = ''2'', suit = clubs\<rparr>,
       \<lparr>rank = ''5'', suit = spades\<rparr>],
       [\<lparr>rank = ''2'', suit = clubs\<rparr>, \<lparr>rank = ''5'', suit = hearts\<rparr>,
       \<lparr>rank = ''5'', suit = spades\<rparr>, \<lparr>rank = ''K'', suit = clubs\<rparr>,
       \<lparr>rank = ''K'', suit = diamonds\<rparr>]]) \<and>
   snd (is_straight_store
     [[\<lparr>rank = ''A'', suit = spades\<rparr>, \<lparr>rank = ''2'', suit = diamonds\<rparr>],
      [\<lparr>rank = ''K'', suit = clubs\<rparr>, \<lparr>rank = ''5'', suit = hearts\<rparr>,
       \<lparr>rank = ''K'', suit = diamonds\<rparr>, \<lparr>rank = ''2'', suit = clubs\<rparr>,
       \<lparr>rank = ''5'', suit = spades\<rparr>]] 1) ! 1
   = [\<lparr>rank = ''K'', suit = clubs\<rparr>, \<lparr>rank = ''5'', suit = hearts\<rparr>,
       \<lparr>rank = ''K'', suit = diamonds\<rparr>, \<lparr>rank = ''2'', suit = clubs\<rparr>,
       \<lparr>rank = ''5'', suit = spades\<rparr>] \<and>
   fst (is_straight_store
     [[\<lparr>rank = ''A'', suit = spades\<rparr>, \<lparr>rank = ''2'', suit = diamonds\<rparr>],
      [\<lparr>rank = ''K'', suit = clubs\<rparr>, \<lparr>rank = ''5'', suit = hearts\<rparr>,
       \<lparr>rank = ''K'', suit = diamonds\<rparr>, \<lparr>rank = ''2'', suit = clubs\<rparr>,
       \<lparr>rank = ''5'', suit = spades\<rparr>]] 1)
   = is_straight \<lparr>hand_cards =
      [\<lparr>rank = ''K'', suit = clubs\<rparr>, \<lparr>rank = ''5'', suit = hearts\<rparr>,
       \<lparr>rank = ''K'', suit = diamonds\<rparr>, \<lparr>rank = ''2'', suit = clubs\<rparr>,
       \<lparr>rank = ''5'', suit = spades\<rparr>]\<rparr>"
proof -
  have run: "is_straight_store
     [[\<lparr>rank = ''A'', suit = spades\<rparr>, \<lparr>rank = ''2'', suit = diamonds\<rparr>],
      [\<lparr>rank = ''K'', suit = clubs\<rparr>, \<lparr>rank = ''5'', suit = hearts\<rparr>,
       \<lparr>rank = ''K'', suit = diamonds\<rparr>, \<lparr>rank = ''2'', suit = clubs\<rparr>,
       \<lparr>rank = ''5'', suit = spades\<rparr>]] 1
   = (Inr False,
      [[\<lparr>rank = ''A'', suit = spades\<rparr>, \<lparr>rank = ''2'', suit = diamonds\<rparr>],
       [\<lparr>rank = ''K'', suit = clubs\<rparr>, \<lparr>rank = ''5'', suit = hearts\<rparr>,
       \<lparr>rank = ''K'', suit = diamonds\<rparr>, \<lparr>rank = ''2'', suit = clubs\<rparr>,
       \<lparr>rank = ''5'', suit = spades\<rparr>],
       [\<lparr>rank = ''2'', suit = clubs\<rparr>, \<lparr>rank = ''5'', suit = hearts\<rparr>,
       \<lparr>rank = ''5'', suit = spades\<rparr>, \<lparr>rank = ''K'', suit = clubs\<rparr>,
       \<lparr>rank = ''K'', suit = diamonds\<rparr>]])"
    by (simp add: is_straight_store_def sorted_store_def sorted_py_def Card_lt_def RANKS_def
        nth_py_def num_matches_five Let_def)
  from is_straight_store_frame [of 1 "[[\<lparr>rank = ''A'', suit = spades\<rparr>, \<lparr>rank = ''2'', suit = diamonds\<rparr>],
      [\<lparr>rank = ''K'', suit = clubs\<rparr>, \<lparr>rank = ''5'', suit = hearts\<rparr>,
       \<lparr>rank = ''K'', suit = diamonds\<rparr>, \<lparr>rank = ''2'', suit = clubs\<rparr>,
       \<lparr>rank = ''5'', suit = spades\<rparr>]]"] run
  show ?thesis
    by simp
qed

section \<open>Straights\<close>

lemma Card_lt_key:
  assumes "index_py RANKS (rank x) = Inr (k x)" and "index_py RANKS (rank y) = Inr (k y)"
  shows "Card_lt x y = Inr (k x < k y)"
  using assms by (simp add: Card_lt_def)

lemma insert_sorted_key:
  assumes "\<And>c. c \<in> set (x # ps) \<Longrightarrow> index_py RANKS (rank c) = Inr (k c)"
  shows "\<exists>qs. insert_sorted x ps = Inr qs \<and> mset qs = mset (x # ps) \<and>
    (sorted (map k ps) \<longrightarrow> sorted (map k qs))"
  using assms
proof (induction ps)
  case Nil
  then show ?case by simp
next
  case (Cons p ps)
  have lt: "Card_lt x p = Inr (k x < k p)"
    by (rule Card_lt_key) (use Cons.prems in auto)
  show ?case
  proof (cases "k x < k p")
    case True
    with lt show ?thesis by auto
  next
    case False
    from Cons.IH Cons.prems obtain qs where qs: "insert_sorted x ps = Inr qs"
      "mset qs = mset (x # ps)" "sorted (map k ps) \<longrightarrow> sorted (map k qs)"
      by auto
    from qs(2) have set: "set qs = set (x # ps)"
      by (rule mset_eq_setD)
    have "sorted (map k (p # ps)) \<longrightarrow> sorted (map k (p # qs))"
      using qs(3) set False by auto
    with lt False qs(1,2) show ?thesis
      by simp
  qed
qed

lemma sort_loop_key:
  assumes "\<And>c. c \<in> set (prefix @ xs) \<Longrightarrow> index_py RANKS (rank c) = Inr (k c)"
  shows "\<exists>ys. sort_loop prefix xs = Inr ys \<and> mset ys = mset prefix + mset xs \<and>
    (sorted (map k prefix) \<longrightarrow> sorted (map k ys))"
  using assms
proof (induction xs arbitrary: prefix)
  case Nil
  then show ?case by simp
next
  case (Cons x xs)
  have "\<exists>qs. insert_sorted x prefix = Inr qs \<and> mset qs = mset (x # prefix) \<and>
    (sorted (map k prefix) \<longrightarrow> sorted (map k qs))"
    by (rule insert_sorted_key) (use Cons.prems in auto)
  then obtain qs where qs: "insert_sorted x prefix = Inr qs" "mset qs = mset (x # prefix)"
    "sorted (map k prefix) \<longrightarrow> sorted (map k qs)"
    by blast
  from qs(2) have set: "set qs = set (x # prefix)"
    by (rule mset_eq_setD)
  have "\<exists>ys. sort_loop qs xs = Inr ys \<and> mset ys = mset qs + mset xs \<and>
    (sorted (map k qs) \<longrightarrow> sorted (map k ys))"
    by (rule Cons.IH) (use set Cons.prems in auto)
  with qs show ?case
    by auto
qed

lemma sorted_py_key:
  assumes "\<And>c. c \<in> set cs \<Longrightarrow> index_py RANKS (rank c) = Inr (k c)"
  shows "\<exists>ys. sorted_py cs = Inr ys \<and> mset ys = mset cs \<and> sorted (map k ys)"
  using sort_loop_key [of "[]" cs k] assms by (auto simp: sorted_py_def)

lemma sorted_first_Min:
  fixes xs :: "nat list"
  assumes "sorted xs" and "xs \<noteq> []"
  shows "xs ! 0 = Min (set xs)"
proof -
  from assms obtain y ys where "xs = y # ys"
    by (cases xs) auto
  with assms(1) show ?thesis
    by (auto intro!: Min_eqI [symmetric])
qed

lemma sorted_last_Max:
  fixes xs :: "nat list"
  assumes "sorted xs" and "xs \<noteq> []"
  shows "xs ! (length xs - 1) = Max (set xs)"
proof -
  have "x \<le> xs ! (length xs - 1)" if "x \<in> set xs" for x
  proof -
    from that obtain i where "i < length xs" "xs ! i = x"
      by (auto simp: in_set_conv_nth)
    with assms(1) show ?thesis
      using sorted_nth_mono [of xs i "length xs - 1"] by auto
  qed
  moreover have "xs ! (length xs - 1) \<in> set xs"
    using assms(2) by simp
  ultimately show ?thesis
    by (auto intro!: Max_eqI [symmetric])
qed

lemma is_straight_ranks:
  assumes len: "length is = 5" and bound: "list_all (\<lambda>i. i < 13) is"
    and ranks: "map rank (hand_cards h) = map ((!) RANKS) is"
  shows "is_straight h =
    Inr (num_matches h = Inr 0 \<and> int (Max (set is)) - int (Min (set is)) = 4)"
proof -
  define cs where "cs = hand_cards h"
  define k where "k c = (case index_py RANKS (rank c) of Inr i \<Rightarrow> i | Inl e \<Rightarrow> 0)" for c :: card
  have lcs: "length cs = 5"
    using ranks len unfolding cs_def by (metis length_map)
  have at: "index_py RANKS (rank (cs ! n)) = Inr (is ! n)" if "n < 5" for n
  proof -
    have "rank (cs ! n) = RANKS ! (is ! n)"
      using ranks that len lcs unfolding cs_def by (metis nth_map)
    moreover have "is ! n < length RANKS"
      using bound that len by (simp add: list_all_length length_RANKS)
    ultimately show ?thesis
      using index_py_nth [OF distinct_RANKS] by simp
  qed
  have key: "index_py RANKS (rank c) = Inr (k c)" if "c \<in> set cs" for c
  proof -
    from that lcs obtain n where "n < 5" "cs ! n = c"
      by (auto simp: in_set_conv_nth)
    with at [of n] show ?thesis
      by (simp add: k_def)
  qed
  have kis: "map k cs = is"
  proof (rule nth_equalityI)
    show "length (map k cs) = length is"
      by (simp add: lcs len)
    fix n assume "n < length (map k cs)"
    then have "n < 5" by (simp add: lcs)
    with at [of n] lcs show "map k cs ! n = is ! n"
      by (simp add: k_def)
  qed
  from sorted_py_key [of cs k, OF key] obtain ys where ys: "sorted_py cs = Inr ys"
    "mset ys = mset cs" "sorted (map k ys)"
    by blast
  have lys: "length ys = 5"
    using mset_eq_length [OF ys(2)] lcs by simp
  have sys: "set ys = set cs"
    by (rule mset_eq_setD [OF ys(2)])
  have sk: "set (map k ys) = set is"
    using sys kis by (metis set_map)
  have ne: "map k ys \<noteq> []"
    using lys by auto
  have k0: "k (ys ! 0) = Min (set is)"
    using sorted_first_Min [OF ys(3) ne] lys sk by simp
  have k4: "k (ys ! 4) = Max (set is)"
    using sorted_last_Max [OF ys(3) ne] lys sk by simp
  have i0: "index_py RANKS (rank (ys ! 0)) = Inr (Min (set is))"
    using key [of "ys ! 0"] sys lys k0 by (metis nth_mem zero_less_numeral)
  have i4: "index_py RANKS (rank (ys ! 4)) = Inr (Max (set is))"
  proof -
    have "ys ! 4 \<in> set cs"
      using sys lys nth_mem [of 4 ys] by simp
    from key [OF this] k4 show ?thesis by simp
  qed
  from num_matches_sum [of h] lcs obtain m where m: "num_matches h = Inr m"
    unfolding cs_def by blast
  show ?thesis
    using ys(1) lys i0 i4 m unfolding cs_def [symmetric]
    by (simp add: is_straight_def nth_py_def cs_def [symmetric])
qed

text \<open>
  C2. On a hand of five cards whose ranks stand at the positions \<open>is\<close> of the
  rank list, \<open>is_straight\<close> is true exactly when \<open>num_matches\<close> is 0 and the
  highest of the five positions minus the lowest is 4: the card that the sort
  puts last has the highest position and the card it puts first the lowest. On a
  hand with the ranks A, 2, 3, 4, 5 \<open>is_straight\<close> is false, the ace being the
  last rank of the list.
\<close>

theorem is_straight_iff:
  "(length is = 5 \<and> list_all (\<lambda>i. i < 13) is \<and> map rank (hand_cards h) = map ((!) RANKS) is \<longrightarrow>
      is_straight h =
        Inr (num_matches h = Inr 0 \<and> int (Max (set is)) - int (Min (set is)) = 4)) \<and>
   (map rank (hand_cards h) = [''A'', ''2'', ''3'', ''4'', ''5''] \<longrightarrow> is_straight h = Inr False)"
proof -
  have "is_straight h = Inr False" if r: "map rank (hand_cards h) = [''A'', ''2'', ''3'', ''4'', ''5'']"
  proof -
    have "map rank (hand_cards h) = map ((!) RANKS) [12, 0, 1, 2, 3]"
      by (simp add: r RANKS_def)
    from is_straight_ranks [OF _ _ this] show ?thesis
      by simp
  qed
  with is_straight_ranks [of "is" h] show ?thesis
    by blast
qed

theorem is_straight_iff_witness:
  "is_straight \<lparr>hand_cards =
     [\<lparr>rank = ''2'', suit = clubs\<rparr>,
      \<lparr>rank = ''3'', suit = clubs\<rparr>,
      \<lparr>rank = ''4'', suit = clubs\<rparr>,
      \<lparr>rank = ''5'', suit = clubs\<rparr>,
      \<lparr>rank = ''6'', suit = clubs\<rparr>]\<rparr> = Inr True \<and>
   is_straight \<lparr>hand_cards =
     [\<lparr>rank = ''A'', suit = spades\<rparr>,
      \<lparr>rank = ''2'', suit = clubs\<rparr>,
      \<lparr>rank = ''3'', suit = diamonds\<rparr>,
      \<lparr>rank = ''4'', suit = hearts\<rparr>,
      \<lparr>rank = ''5'', suit = spades\<rparr>]\<rparr> = Inr False"
proof -
  have 1: "map rank (hand_cards \<lparr>hand_cards =
     [\<lparr>rank = ''2'', suit = clubs\<rparr>,
      \<lparr>rank = ''3'', suit = clubs\<rparr>,
      \<lparr>rank = ''4'', suit = clubs\<rparr>,
      \<lparr>rank = ''5'', suit = clubs\<rparr>,
      \<lparr>rank = ''6'', suit = clubs\<rparr>]\<rparr>) = map ((!) RANKS) [0, 1, 2, 3, 4]"
    by (simp add: RANKS_def)
  have 2: "num_matches \<lparr>hand_cards =
     [\<lparr>rank = ''2'', suit = clubs\<rparr>,
      \<lparr>rank = ''3'', suit = clubs\<rparr>,
      \<lparr>rank = ''4'', suit = clubs\<rparr>,
      \<lparr>rank = ''5'', suit = clubs\<rparr>,
      \<lparr>rank = ''6'', suit = clubs\<rparr>]\<rparr> = Inr 0"
    by (simp add: num_matches_five)
  from is_straight_iff [of "[0, 1, 2, 3, 4]" "\<lparr>hand_cards =
     [\<lparr>rank = ''2'', suit = clubs\<rparr>,
      \<lparr>rank = ''3'', suit = clubs\<rparr>,
      \<lparr>rank = ''4'', suit = clubs\<rparr>,
      \<lparr>rank = ''5'', suit = clubs\<rparr>,
      \<lparr>rank = ''6'', suit = clubs\<rparr>]\<rparr>"] 1 2
  have "is_straight \<lparr>hand_cards =
     [\<lparr>rank = ''2'', suit = clubs\<rparr>,
      \<lparr>rank = ''3'', suit = clubs\<rparr>,
      \<lparr>rank = ''4'', suit = clubs\<rparr>,
      \<lparr>rank = ''5'', suit = clubs\<rparr>,
      \<lparr>rank = ''6'', suit = clubs\<rparr>]\<rparr> = Inr True"
    by simp
  moreover from is_straight_iff [of "[]" "\<lparr>hand_cards =
     [\<lparr>rank = ''A'', suit = spades\<rparr>,
      \<lparr>rank = ''2'', suit = clubs\<rparr>,
      \<lparr>rank = ''3'', suit = diamonds\<rparr>,
      \<lparr>rank = ''4'', suit = hearts\<rparr>,
      \<lparr>rank = ''5'', suit = spades\<rparr>]\<rparr>"]
  have "is_straight \<lparr>hand_cards =
     [\<lparr>rank = ''A'', suit = spades\<rparr>,
      \<lparr>rank = ''2'', suit = clubs\<rparr>,
      \<lparr>rank = ''3'', suit = diamonds\<rparr>,
      \<lparr>rank = ''4'', suit = hearts\<rparr>,
      \<lparr>rank = ''5'', suit = spades\<rparr>]\<rparr> = Inr False"
    by simp
  ultimately show ?thesis
    by simp
qed

section \<open>True division\<close>

text \<open>\<open>bit_length\<close> on numerals, for evaluation.\<close>

lemma bit_length_0 [simp]: "bit_length 0 = 0"
  by (simp add: bit_length.simps)

lemma bit_length_1 [simp]: "bit_length (Suc 0) = 1"
  by (simp add: bit_length.simps [of "Suc 0"])

lemma bit_length_numeral [simp]: "bit_length (numeral k) = Suc (bit_length (numeral k div 2))"
  by (subst bit_length.simps) simp

lemma bit_length_bounds:
  "0 < n \<Longrightarrow> n < 2 ^ bit_length n \<and> 2 ^ (bit_length n - 1) \<le> n"
proof (induction n rule: bit_length.induct)
  case (1 n)
  show ?case
  proof (cases "n div 2 = 0")
    case True
    with "1.prems" have "n = 1" by auto
    then show ?thesis
      by (simp add: bit_length.simps [of 1] bit_length.simps [of 0])
  next
    case False
    with "1.IH" "1.prems" have IH: "n div 2 < 2 ^ bit_length (n div 2)"
      "2 ^ (bit_length (n div 2) - 1) \<le> n div 2"
      by auto
    have bl: "bit_length n = Suc (bit_length (n div 2))"
      using "1.prems" by (subst bit_length.simps) simp
    have pos: "0 < bit_length (n div 2)"
      using False by (subst bit_length.simps) simp
    have "n < 2 * 2 ^ bit_length (n div 2)"
      using IH(1) by linarith
    moreover have "2 * 2 ^ (bit_length (n div 2) - 1) \<le> n"
      using IH(2) by linarith
    moreover have "(2::nat) * 2 ^ (bit_length (n div 2) - 1) = 2 ^ bit_length (n div 2)"
      using pos by (cases "bit_length (n div 2)") simp_all
    ultimately show ?thesis
      by (simp add: bl)
  qed
qed

lemma round_half_even_near:
  assumes "0 < d"
  shows "\<bar>real (round_half_even n d) - real n / real d\<bar> \<le> 1 / 2"
proof -
  define q where "q = n div d"
  define r where "r = n mod d"
  have n: "real n = real q * real d + real r"
    unfolding q_def r_def by (metis of_nat_add of_nat_mult div_mult_mod_eq)
  have rd: "r < d"
    unfolding r_def using assms by simp
  have quot: "real n / real d = real q + real r / real d"
    using assms by (simp add: n field_simps)
  consider "2 * r < d" | "d < 2 * r" | "2 * r = d"
    by linarith
  then show ?thesis
  proof cases
    case 1
    then have "round_half_even n d = q"
      by (simp add: round_half_even_def q_def r_def Let_def)
    moreover have "real r / real d \<le> 1 / 2"
      using 1 assms by (simp add: field_simps)
    ultimately show ?thesis
      using quot by simp
  next
    case 2
    then have "round_half_even n d = q + 1"
      by (simp add: round_half_even_def q_def r_def Let_def)
    moreover have "1 / 2 \<le> real r / real d" "real r / real d \<le> 1"
      using 2 rd assms by (simp_all add: field_simps)
    ultimately show ?thesis
      using quot by simp
  next
    case 3
    then have "round_half_even n d = q \<or> round_half_even n d = q + 1"
      by (simp add: round_half_even_def q_def r_def Let_def)
    moreover have "real r / real d = 1 / 2"
      using 3 assms by (simp add: field_simps)
    ultimately show ?thesis
      using quot by auto
  qed
qed

lemma scaled_less_powi:
  assumes "0 < d"
  shows "(n * 2 ^ nat (- e) < d * 2 ^ nat e) = (real n / real d < 2 powi e)"
proof (cases "0 \<le> e")
  case True
  then have "(2::real) powi e = 2 ^ nat e"
    by (simp add: power_int_def)
  moreover have "(n < d * 2 ^ nat e) = (real n < real d * 2 ^ nat e)"
    by (metis of_nat_less_iff of_nat_mult of_nat_numeral of_nat_power)
  ultimately show ?thesis
    using True assms by (simp add: pos_divide_less_eq mult.commute)
next
  case False
  define k where "k = nat (- e)"
  have pw: "(2::real) powi e = 1 / 2 ^ k"
    using False by (simp add: power_int_def k_def field_simps)
  have "(n * 2 ^ k < d) = (real n * 2 ^ k < real d)"
    by (metis of_nat_less_iff of_nat_mult of_nat_numeral of_nat_power)
  also have "\<dots> = (real n / real d < 1 / 2 ^ k)"
    using assms by (simp add: field_simps)
  finally have "(n * 2 ^ k < d) = (real n / real d < 2 powi e)"
    by (simp only: pw)
  moreover have "nat e = 0"
    using False by simp
  ultimately show ?thesis
    by (simp add: k_def)
qed

lemma powi_div: "(2::real) powi a / 2 powi b = 2 powi (a - b)"
  by (simp add: power_int_diff)

lemma float_exponent_bounds:
  assumes n: "0 < n" and d: "0 < d"
  shows "2 powi (float_exponent n d) \<le> real n / real d \<and>
    real n / real d < 2 powi (float_exponent n d + 1)"
proof -
  define e where "e = int (bit_length n) - int (bit_length d)"
  define q where "q = real n / real d"
  from bit_length_bounds [OF n] have bn: "real n < 2 ^ bit_length n"
    "2 ^ (bit_length n - 1) \<le> real n"
    by (metis of_nat_less_iff of_nat_numeral of_nat_power, metis of_nat_le_iff of_nat_numeral of_nat_power)
  from bit_length_bounds [OF d] have bd: "real d < 2 ^ bit_length d"
    "2 ^ (bit_length d - 1) \<le> real d"
    by (metis of_nat_less_iff of_nat_numeral of_nat_power, metis of_nat_le_iff of_nat_numeral of_nat_power)
  have ln: "0 < bit_length n" and ld: "0 < bit_length d"
    using n d by (subst bit_length.simps, simp)+
  have pn: "(2::real) ^ bit_length n = 2 powi (int (bit_length n))"
    and pd: "(2::real) ^ bit_length d = 2 powi (int (bit_length d))"
    by simp_all
  have pn1: "(2::real) ^ (bit_length n - 1) = 2 powi (int (bit_length n) - 1)"
    using ln by (simp add: power_int_def nat_diff_distrib')
  have pd1: "(2::real) ^ (bit_length d - 1) = 2 powi (int (bit_length d) - 1)"
    using ld by (simp add: power_int_def nat_diff_distrib')
  have dpos: "0 < real d"
    using d by simp
  have upper: "q < (2::real) powi (e + 1)"
  proof -
    have "q < 2 powi (int (bit_length n)) / real d"
      unfolding q_def using bn(1) dpos by (simp add: divide_strict_right_mono)
    also have "\<dots> \<le> 2 powi (int (bit_length n)) / 2 powi (int (bit_length d) - 1)"
      using bd(2) dpos unfolding pd1 by (intro divide_left_mono) simp_all
    also have "\<dots> = 2 powi (e + 1)"
      unfolding e_def powi_div by (rule arg_cong [where f = "\<lambda>i. 2 powi i"]) simp
    finally show ?thesis .
  qed
  have lower: "(2::real) powi (e - 1) \<le> q"
  proof -
    have "(2::real) powi (e - 1) = 2 powi (int (bit_length n) - 1) / 2 powi (int (bit_length d))"
      unfolding e_def powi_div by (rule arg_cong [where f = "\<lambda>i. 2 powi i"]) simp
    also have "\<dots> \<le> real n / 2 powi (int (bit_length d))"
      using bn(2) unfolding pn1 by (simp add: divide_right_mono)
    also have "\<dots> \<le> real n / real d"
      using bd(1) dpos unfolding pd by (intro divide_left_mono) simp_all
    finally show ?thesis
      unfolding q_def .
  qed
  show ?thesis
  proof (cases "q < 2 powi e")
    case True
    then have "float_exponent n d = e - 1"
      using scaled_less_powi [OF d, of n e]
      by (simp add: float_exponent_def e_def [symmetric] q_def Let_def)
    with lower True show ?thesis
      by (simp add: q_def)
  next
    case False
    then have "float_exponent n d = e"
      using scaled_less_powi [OF d, of n e]
      by (simp add: float_exponent_def e_def [symmetric] q_def Let_def)
    with upper False show ?thesis
      by (simp add: q_def)
  qed
qed

lemma true_div_near:
  assumes a: "0 < a" and b: "0 < b" and le: "a \<le> 100 * b"
  shows "\<exists>x. true_div a b = Inr x \<and>
    \<bar>x - real_of_int a / real_of_int b\<bar>
      \<le> max (real_of_int a / real_of_int b / 2 ^ 53) (1 / 2 ^ 1075)"
proof -
  define n where "n = nat a"
  define d where "d = nat b"
  define q where "q = real n / real d"
  define e where "e = float_exponent n d"
  define p where "p = max (e - 52) (- 1074)"
  define k where "k = nat (- p)"
  define m where "m = round_half_even (n * 2 ^ k) d"
  have n: "0 < n" "real n = real_of_int a" and d: "0 < d" "real d = real_of_int b"
    using a b by (simp_all add: n_def d_def)
  have q100: "q \<le> 100"
  proof -
    have "real_of_int a \<le> 100 * real_of_int b"
      using le by (metis of_int_le_iff of_int_mult of_int_numeral)
    then show ?thesis
      using b by (simp add: q_def n(2) d(2) pos_divide_le_eq)
  qed
  have qpos: "0 < q"
    using n(1) d(1) by (simp add: q_def)
  from float_exponent_bounds [OF n(1) d(1)] have eb: "2 powi e \<le> q" "q < 2 powi (e + 1)"
    by (simp_all add: e_def q_def)
  have e6: "e \<le> 6"
  proof (rule ccontr)
    assume "\<not> e \<le> 6"
    then have "(2::real) powi 7 \<le> 2 powi e"
      by (intro power_int_increasing) simp_all
    with eb(1) q100 show False by simp
  qed
  have pneg: "p < 0" and natp: "nat p = 0"
    using e6 by (simp_all add: p_def)
  have pk: "(2::real) powi p = 1 / 2 ^ k"
    using pneg by (simp add: power_int_def k_def field_simps)
  have near: "\<bar>real m - real (n * 2 ^ k) / real d\<bar> \<le> 1 / 2"
    unfolding m_def by (rule round_half_even_near [OF d(1)])
  have scaled: "real (n * 2 ^ k) / real d = q * 2 ^ k"
    by (simp add: q_def)
  have mle: "real m \<le> q * 2 ^ k + 1 / 2"
    using near scaled by linarith
  have no_overflow: "\<not> (2 ^ 1024 * 2 ^ k \<le> m)"
  proof
    assume "2 ^ 1024 * 2 ^ k \<le> m"
    then have "real (2 ^ 1024 * 2 ^ k) \<le> real m"
      by (simp only: of_nat_le_iff)
    then have "2 ^ 1024 * 2 ^ k \<le> real m"
      by simp
    also have "\<dots> \<le> 100 * 2 ^ k + 1 / 2"
    proof -
      have "q * 2 ^ k \<le> 100 * 2 ^ k"
        using q100 by (rule mult_right_mono) simp
      with mle show ?thesis by linarith
    qed
    also have "\<dots> < 101 * 2 ^ k"
    proof -
      have "1 \<le> (2::real) ^ k" by simp
      then show ?thesis by linarith
    qed
    finally have "(2::real) ^ 1024 * 2 ^ k < 101 * 2 ^ k" .
    then have "(2::real) ^ 1024 < 101"
      by simp
    then show False by simp
  qed
  have td: "true_div a b = Inr (real m / 2 ^ k)"
    using a b no_overflow natp
    by (simp add: true_div_def Let_def n_def [symmetric] d_def [symmetric] e_def [symmetric]
        p_def [symmetric] k_def [symmetric] m_def [symmetric])
  have err: "\<bar>real m / 2 ^ k - q\<bar> \<le> 1 / 2 ^ k / 2"
  proof -
    have "\<bar>real m / 2 ^ k - q\<bar> = \<bar>real m - q * 2 ^ k\<bar> / 2 ^ k"
      by (simp add: field_simps abs_divide)
    also have "\<dots> \<le> (1 / 2) / 2 ^ k"
      using near scaled by (intro divide_right_mono) simp_all
    finally show ?thesis by simp
  qed
  have "1 / 2 ^ k / 2 \<le> max (q / 2 ^ 53) (1 / 2 ^ 1075)"
  proof (cases "- 1074 \<le> e - 52")
    case True
    then have "p = e - 52" by (simp add: p_def)
    then have "(2::real) powi p = 2 powi e / 2 powi 52"
      by (simp only: powi_div)
    with pk eb(1) have "1 / 2 ^ k \<le> q / 2 ^ 52"
      by (simp add: divide_right_mono)
    then have "1 / 2 ^ k / 2 \<le> q / 2 ^ 53"
      by simp
    then show ?thesis by simp
  next
    case False
    then have "p = - 1074" by (simp add: p_def)
    then have "k = 1074" by (simp add: k_def)
    then have "1 / (2::real) ^ k / 2 = 1 / 2 ^ 1075"
      by simp
    then show ?thesis by simp
  qed
  with err have "\<bar>real m / 2 ^ k - q\<bar> \<le> max (q / 2 ^ 53) (1 / 2 ^ 1075)"
    by linarith
  with td show ?thesis
    by (simp add: q_def n(2) d(2))
qed

section \<open>Simulations\<close>

lemma count_passes_step:
  assumes "a < b"
  shows "card {k. a \<le> k \<and> k < b \<and> P k} = of_bool (P a) + card {k. Suc a \<le> k \<and> k < b \<and> P k}"
proof -
  have fin: "finite {k. Suc a \<le> k \<and> k < b \<and> P k}"
    by simp
  have notin: "a \<notin> {k. Suc a \<le> k \<and> k < b \<and> P k}"
    by simp
  show ?thesis
  proof (cases "P a")
    case True
    with assms have "{k. a \<le> k \<and> k < b \<and> P k} = insert a {k. Suc a \<le> k \<and> k < b \<and> P k}"
      by (auto simp: Suc_le_eq le_less)
    with True show ?thesis
      using card_insert_disjoint [OF fin notin] by simp
  next
    case False
    then have "{k. a \<le> k \<and> k < b \<and> P k} = {k. Suc a \<le> k \<and> k < b \<and> P k}"
      by (auto simp: Suc_le_eq le_less)
    with False show ?thesis by simp
  qed
qed

lemma simulation_loop_counts:
  assumes run: "simulation_loop target rnd matches trials = Some y"
  shows "\<forall>m t. y = Inr (m, t) \<longrightarrow> matches \<le> 1000 \<longrightarrow> 0 \<le> trials \<longrightarrow>
    m = 1000 \<and> trials \<le> t \<and>
    m - matches = int (card {k. nat trials \<le> k \<and> k < nat t \<and> pass_matches target rnd k})"
proof -
  let ?P = "\<lambda>target rnd matches trials y.
    \<forall>m t. y = Inr (m, t) \<longrightarrow> matches \<le> 1000 \<longrightarrow> 0 \<le> trials \<longrightarrow>
      m = 1000 \<and> trials \<le> t \<and>
      m - matches = int (card {k. nat trials \<le> k \<and> k < nat t \<and> pass_matches target rnd k})"
  have "?P target rnd matches trials y"
  proof (rule simulation_loop.raw_induct [where P = ?P, OF _ run], goal_cases)
    case (1 loop target rnd matches trials y)
    show ?case
    proof (intro allI impI)
      fix m t
      assume y: "y = Inr (m, t)" and le: "matches \<le> 1000" and nn: "0 \<le> trials"
      show "m = 1000 \<and> trials \<le> t \<and>
        m - matches = int (card {k. nat trials \<le> k \<and> k < nat t \<and> pass_matches target rnd k})"
      proof (cases "matches < 1000")
        case False
        with 1(2) y le show ?thesis
          by simp
      next
        case True
        with 1(2) y obtain hand b where hand: "deal_hand (rnd (nat trials)) = Inr hand"
          and b: "target hand = Inr b"
          and rec: "loop target rnd (if b then matches + 1 else matches) (trials + 1)
            = Some (Inr (m, t))"
          by (auto split: sum.splits)
        have pm: "pass_matches target rnd (nat trials) = b"
          by (simp add: pass_matches_def hand b)
        have "(if b then matches + 1 else matches) \<le> 1000" "0 \<le> trials + 1"
          using True nn by auto
        with 1(1) [OF rec] have m: "m = 1000" and t: "trials + 1 \<le> t"
          and c: "m - (if b then matches + 1 else matches) =
            int (card {k. nat (trials + 1) \<le> k \<and> k < nat t \<and> pass_matches target rnd k})"
          by blast+
        have lt: "nat trials < nat t"
          using t nn by simp
        have "nat (trials + 1) = Suc (nat trials)"
          using nn by simp
        with c count_passes_step [OF lt, of "pass_matches target rnd"] pm
        have "m - matches
          = int (card {k. nat trials \<le> k \<and> k < nat t \<and> pass_matches target rnd k})"
          by (simp split: if_splits)
        with m t show ?thesis
          by simp
      qed
    qed
  qed
  then show ?thesis .
qed

lemma deal_hand_total:
  "\<exists>hand. deal_hand r = Inr hand \<and> length (hand_cards hand) = 5 \<and> distinct (hand_cards hand) \<and>
     set (hand_cards hand) \<subseteq> {c. rank c \<in> set RANKS \<and> suit c \<in> set SUITS}"
proof -
  define D where "D = \<lparr>deck_cards = concat (map (\<lambda>s. map (\<lambda>r. \<lparr>rank = r, suit = s\<rparr>) RANKS) SUITS)\<rparr>"
  define D' where "D' = snd (shuffle r D)"
  have m: "mset (deck_cards D') = mset (deck_cards D)"
    unfolding D'_def by (rule mset_shuffle)
  have len: "length (deck_cards D') = 52"
    using mset_eq_length [OF m] by (simp add: D_def Deck_cards_length)
  have dist: "distinct (deck_cards D')"
    using mset_eq_imp_distinct_iff [OF m] by (simp add: D_def Deck_cards_distinct)
  have set: "set (deck_cards D') = {c. rank c \<in> set RANKS \<and> suit c \<in> set SUITS}"
    using mset_eq_setD [OF m] by (simp only: D_def deck.simps Deck_cards_set)
  have "deal_hand r = fst (Hand_init D')"
    by (simp add: deal_hand_def Deck_cards D_def D'_def split: prod.splits)
  also have "\<dots> = Inr \<lparr>hand_cards = take 5 (deck_cards D')\<rparr>"
    using len by (simp add: Hand_init_def deal_range_take)
  finally have "deal_hand r = Inr \<lparr>hand_cards = take 5 (deck_cards D')\<rparr>" .
  moreover have "length (take 5 (deck_cards D')) = 5"
    using len by simp
  moreover have "distinct (take 5 (deck_cards D'))"
    using dist by (rule distinct_take)
  moreover have "set (take 5 (deck_cards D')) \<subseteq> {c. rank c \<in> set RANKS \<and> suit c \<in> set SUITS}"
    using set_take_subset [of 5 "deck_cards D'"] set by simp
  ultimately show ?thesis
    by simp
qed

lemma is_straight_total:
  assumes len: "length (hand_cards h) = 5"
    and valid: "\<And>c. c \<in> set (hand_cards h) \<Longrightarrow> rank c \<in> set RANKS"
  shows "\<exists>b. is_straight h = Inr b"
proof -
  have "\<forall>c\<in>set (hand_cards h). \<exists>i. i < 13 \<and> RANKS ! i = rank c"
    using valid by (auto simp: in_set_conv_nth length_RANKS)
  then obtain f where f: "\<And>c. c \<in> set (hand_cards h) \<Longrightarrow> f c < 13 \<and> RANKS ! f c = rank c"
    using bchoice [of "set (hand_cards h)" "\<lambda>c i. i < 13 \<and> RANKS ! i = rank c"] by blast
  have 1: "length (map f (hand_cards h)) = 5"
    by (simp add: len)
  have 2: "list_all (\<lambda>i. i < 13) (map f (hand_cards h))"
    using f by (simp add: list_all_iff)
  have 3: "map rank (hand_cards h) = map ((!) RANKS) (map f (hand_cards h))"
    using f by (simp add: comp_def)
  from is_straight_ranks [OF 1 2 3] show ?thesis
    by blast
qed

lemma is_full_house_total:
  assumes "length (hand_cards h) = 5"
  shows "\<exists>b. is_full_house h = Inr b"
  using num_matches_sum [OF assms] by (simp add: is_full_house_def)

lemma simulation_loop_no_error:
  assumes total: "\<And>r. \<exists>hand b. deal_hand r = Inr hand \<and> target hand = Inr b"
    and run: "simulation_loop target rnd matches trials = Some y"
  shows "\<exists>m t. y = Inr (m, t)"
proof -
  let ?P = "\<lambda>tg (rn :: nat \<Rightarrow> nat \<Rightarrow> nat) (ma :: int) (tr :: int) y. tg = target \<longrightarrow> (\<exists>m t. y = Inr (m, t))"
  have "?P target rnd matches trials y"
  proof (rule simulation_loop.raw_induct [where P = ?P, OF _ run], goal_cases)
    case (1 loop tg rn ma tr y)
    show ?case
    proof
      assume tg: "tg = target"
      from total [of "rn (nat tr)"] obtain hand b where
        hb: "deal_hand (rn (nat tr)) = Inr hand" "target hand = Inr b"
        by blast
      show "\<exists>m t. y = Inr (m, t)"
      proof (cases "ma < 1000")
        case True
        with 1(2) tg hb have "loop target rn (if b then ma + 1 else ma) (tr + 1) = Some y"
          by simp
        from 1(1) [OF this] show ?thesis
          by simp
      next
        case False
        with 1(2) show ?thesis
          by auto
      qed
    qed
  qed
  then show ?thesis by simp
qed

lemma simulation_loop_stops:
  assumes total: "\<And>r. \<exists>hand b. deal_hand r = Inr hand \<and> target hand = Inr b"
  shows "d = n - nat trials \<Longrightarrow> 0 \<le> trials \<Longrightarrow>
    (matches = 1000 \<and> n = nat trials) \<or>
    (matches < 1000 \<and> nat trials < n \<and> pass_matches target rnd (n - 1) \<and>
     int (card {k. nat trials \<le> k \<and> k < n \<and> pass_matches target rnd k}) = 1000 - matches) \<Longrightarrow>
    simulation_loop target rnd matches trials = Some (Inr (1000, int n))"
proof (induction d arbitrary: matches trials)
  case 0
  then have "matches = 1000" "int n = trials"
    by auto
  then show ?case
    by (subst simulation_loop.simps) simp
next
  case (Suc d)
  from Suc.prems(1) have lt: "nat trials < n"
    by simp
  with Suc.prems(3) have m: "matches < 1000" and last: "pass_matches target rnd (n - 1)"
    and cnt: "int (card {k. nat trials \<le> k \<and> k < n \<and> pass_matches target rnd k}) = 1000 - matches"
    by auto
  from total [of "rnd (nat trials)"] obtain hand b where hand: "deal_hand (rnd (nat trials)) = Inr hand"
    and b: "target hand = Inr b"
    by blast
  have pm: "pass_matches target rnd (nat trials) = b"
    by (simp add: pass_matches_def hand b)
  let ?m = "if b then matches + 1 else matches"
  let ?S = "{k. Suc (nat trials) \<le> k \<and> k < n \<and> pass_matches target rnd k}"
  have nat': "nat (trials + 1) = Suc (nat trials)"
    using Suc.prems(2) by simp
  have cnt': "int (card ?S) = 1000 - ?m"
    using cnt count_passes_step [OF lt, of "pass_matches target rnd"] pm by (cases b) simp_all
  have "(?m = 1000 \<and> n = nat (trials + 1)) \<or>
    (?m < 1000 \<and> nat (trials + 1) < n \<and> pass_matches target rnd (n - 1) \<and>
     int (card {k. nat (trials + 1) \<le> k \<and> k < n \<and> pass_matches target rnd k}) = 1000 - ?m)"
  proof (cases "?m = 1000")
    case True
    with cnt' have "card ?S = 0" by simp
    then have empty: "?S = {}" by simp
    have "n = Suc (nat trials)"
    proof (rule ccontr)
      assume "n \<noteq> Suc (nat trials)"
      with lt have "Suc (nat trials) \<le> n - 1" "n - 1 < n"
        by auto
      with last have "n - 1 \<in> ?S"
        by simp
      with empty show False by blast
    qed
    with True nat' show ?thesis by simp
  next
    case False
    with m have lt': "?m < 1000" by (auto split: if_splits)
    have "?S \<noteq> {}"
    proof
      assume "?S = {}"
      then have "card ?S = 0" by (simp only: card.empty)
      with cnt' lt' show False by simp
    qed
    then have "Suc (nat trials) < n" by auto
    with lt' last cnt' nat' show ?thesis by simp
  qed
  moreover have "d = n - nat (trials + 1)"
    using Suc.prems(1) nat' by simp
  moreover have "0 \<le> trials + 1"
    using Suc.prems(2) by simp
  ultimately have "simulation_loop target rnd ?m (trials + 1) = Some (Inr (1000, int n))"
    using Suc.IH by blast
  with m hand b show ?case
    by (subst simulation_loop.simps) simp
qed

lemma shuffle_loop_id: "shuffle_loop (\<lambda>i. i) k x = x"
  by (induction k arbitrary: x) (simp_all add: Let_def)

lemma deal_hand_shuffled:
  "deal_hand r = Inr \<lparr>hand_cards = take 5 (shuffle_loop r 51
     (concat (map (\<lambda>s. map (\<lambda>r. \<lparr>rank = r, suit = s\<rparr>) RANKS) SUITS)))\<rparr>"
proof -
  let ?cs = "concat (map (\<lambda>s. map (\<lambda>r. \<lparr>rank = r, suit = s\<rparr>) RANKS) SUITS)"
  have "5 \<le> length (shuffle_loop r 51 ?cs)"
    by (simp add: length_shuffle_loop Deck_cards_length)
  then show ?thesis
    by (simp add: deal_hand_def Deck_cards shuffle_def Deck_cards_length Hand_init_def
        deal_range_take)
qed

lemma pass_matches_straight_id: "pass_matches is_straight (\<lambda>t i. i) k"
proof -
  have "take 5 (concat (map (\<lambda>s. map (\<lambda>r. \<lparr>rank = r, suit = s\<rparr>) RANKS) SUITS)) =
     [\<lparr>rank = ''2'', suit = clubs\<rparr>,
      \<lparr>rank = ''3'', suit = clubs\<rparr>,
      \<lparr>rank = ''4'', suit = clubs\<rparr>,
      \<lparr>rank = ''5'', suit = clubs\<rparr>,
      \<lparr>rank = ''6'', suit = clubs\<rparr>]"
    by (simp add: RANKS_def SUITS_def)
  moreover have "is_straight \<lparr>hand_cards =
     [\<lparr>rank = ''2'', suit = clubs\<rparr>,
      \<lparr>rank = ''3'', suit = clubs\<rparr>,
      \<lparr>rank = ''4'', suit = clubs\<rparr>,
      \<lparr>rank = ''5'', suit = clubs\<rparr>,
      \<lparr>rank = ''6'', suit = clubs\<rparr>]\<rparr> = Inr True"
    by (simp add: is_straight_def sorted_py_def Card_lt_def RANKS_def nth_py_def num_matches_five)
  ultimately show ?thesis
    by (simp add: pass_matches_def deal_hand_shuffled shuffle_loop_id)
qed

lemma pass_matches_full_house:
  "pass_matches is_full_house
     (\<lambda>t i. if i = 27 then 4 else if i = 26 then 2 else if i = 14 then 3
        else if i = 13 then 1 else i) k"
proof -
  have "take 5 (shuffle_loop (\<lambda>i. if i = 27 then 4 else if i = 26 then 2 else if i = 14 then 3
       else if i = 13 then 1 else i) 51
     (concat (map (\<lambda>s. map (\<lambda>r. \<lparr>rank = r, suit = s\<rparr>) RANKS) SUITS))) =
     [\<lparr>rank = ''2'', suit = clubs\<rparr>,
      \<lparr>rank = ''2'', suit = diamonds\<rparr>,
      \<lparr>rank = ''2'', suit = hearts\<rparr>,
      \<lparr>rank = ''3'', suit = diamonds\<rparr>,
      \<lparr>rank = ''3'', suit = hearts\<rparr>]"
    by code_simp
  moreover have "is_full_house \<lparr>hand_cards =
     [\<lparr>rank = ''2'', suit = clubs\<rparr>,
      \<lparr>rank = ''2'', suit = diamonds\<rparr>,
      \<lparr>rank = ''2'', suit = hearts\<rparr>,
      \<lparr>rank = ''3'', suit = diamonds\<rparr>,
      \<lparr>rank = ''3'', suit = hearts\<rparr>]\<rparr> = Inr True"
    by (simp add: is_full_house_def num_matches_five)
  ultimately show ?thesis
    by (simp add: pass_matches_def deal_hand_shuffled)
qed

lemma simulation_targets_total:
  assumes "target = is_straight \<or> target = is_full_house"
  shows "\<exists>hand b. deal_hand r = Inr hand \<and> target hand = Inr b"
proof -
  from deal_hand_total [of r] obtain hand where hand: "deal_hand r = Inr hand"
    "length (hand_cards hand) = 5"
    "set (hand_cards hand) \<subseteq> {c. rank c \<in> set RANKS \<and> suit c \<in> set SUITS}"
    by blast
  have "\<exists>b. is_straight hand = Inr b"
    by (rule is_straight_total) (use hand in auto)
  moreover have "\<exists>b. is_full_house hand = Inr b"
    by (rule is_full_house_total) (rule hand(2))
  ultimately show ?thesis
    using assms hand(1) by auto
qed

lemma pass_no_straight_full_house:
  "\<not> pass_matches is_straight
     (\<lambda>t i. if i = 27 then 4 else if i = 26 then 2 else if i = 14 then 3
        else if i = 13 then 1 else i) k"
proof -
  have "take 5 (shuffle_loop (\<lambda>i. if i = 27 then 4 else if i = 26 then 2 else if i = 14 then 3
        else if i = 13 then 1 else i) 51
     (concat (map (\<lambda>s. map (\<lambda>r. \<lparr>rank = r, suit = s\<rparr>) RANKS) SUITS))) =
     [\<lparr>rank = ''2'', suit = clubs\<rparr>,
      \<lparr>rank = ''2'', suit = diamonds\<rparr>,
      \<lparr>rank = ''2'', suit = hearts\<rparr>,
      \<lparr>rank = ''3'', suit = diamonds\<rparr>,
      \<lparr>rank = ''3'', suit = hearts\<rparr>]"
    by code_simp
  moreover have "is_straight \<lparr>hand_cards =
     [\<lparr>rank = ''2'', suit = clubs\<rparr>,
      \<lparr>rank = ''2'', suit = diamonds\<rparr>,
      \<lparr>rank = ''2'', suit = hearts\<rparr>,
      \<lparr>rank = ''3'', suit = diamonds\<rparr>,
      \<lparr>rank = ''3'', suit = hearts\<rparr>]\<rparr> = Inr False"
    by (simp add: is_straight_def sorted_py_def Card_lt_def RANKS_def nth_py_def num_matches_five)
  ultimately show ?thesis
    by (simp add: pass_matches_def deal_hand_shuffled)
qed

lemma card_every_third: "card {k::nat. k < 3000 \<and> k mod 3 = 2} = 1000"
proof -
  have eq: "{k. k < 3000 \<and> k mod 3 = 2} = (\<lambda>j. 3 * j + 2) ` {..<(1000::nat)}"
  proof (rule set_eqI)
    fix k :: nat
    show "k \<in> {k. k < 3000 \<and> k mod 3 = 2} \<longleftrightarrow> k \<in> (\<lambda>j. 3 * j + 2) ` {..<1000}"
    proof
      assume "k \<in> {k. k < 3000 \<and> k mod 3 = 2}"
      then have "k = 3 * (k div 3) + 2" "k div 3 < 1000"
        by (simp_all, presburger+)
      then show "k \<in> (\<lambda>j. 3 * j + 2) ` {..<1000}"
        by blast
    next
      assume "k \<in> (\<lambda>j. 3 * j + 2) ` {..<1000}"
      then obtain j where "j < 1000" "k = 3 * j + 2"
        by auto
      then have "k < 3000" "k mod 3 = 2"
        by presburger+
      then show "k \<in> {k. k < 3000 \<and> k mod 3 = 2}"
        by simp
    qed
  qed
  have inj: "inj_on (\<lambda>j. 3 * j + 2) {..<(1000::nat)}"
    by (rule inj_onI) simp
  show ?thesis
    by (simp only: eq card_image [OF inj] card_lessThan)
qed

text \<open>
  C3. Each pass of a simulation loop builds a new deck, shuffles it, deals one
  hand, adds 1 to the trial counter and adds 1 to the match counter when the
  target property is true of the hand; no pass raises. When a loop that started
  with both counters at 0 stops, the match counter is 1000, the trial counter is
  at least the match counter, the match counter is the number of the passes made
  whose hand had the target property, and the estimate reported is
  \<open>100 * matches / trials\<close> as Python divides: the division raises nothing and
  gives the float for the quotient, which is off the quotient by at most its
  \<open>2 ^ 53\<close>-th part (or by \<open>1 / 2 ^ 1075\<close>, among the smallest floats). Whether
  the loop stops is up to the generator: it stops with the \<open>n\<close>-th pass when
  that pass is the 1000th whose hand has the property.
\<close>

theorem simulation_result:
  assumes "target = is_straight \<or> target = is_full_house"
  shows "(simulation_loop target rnd 0 0 = Some (Inr (matches, trials)) \<longrightarrow>
      matches = 1000 \<and> matches \<le> trials \<and>
      matches = int (card {k. k < nat trials \<and> pass_matches target rnd k}) \<and>
      (\<exists>x. simulation target rnd = Some (Inr x) \<and> true_div (100 * matches) trials = Inr x \<and>
         \<bar>x - real_of_int (100 * matches) / real_of_int trials\<bar>
           \<le> max (real_of_int (100 * matches) / real_of_int trials / 2 ^ 53) (1 / 2 ^ 1075))) \<and>
    (simulation_loop target rnd 0 0 = Some y \<longrightarrow> (\<exists>t. y = Inr (1000, t))) \<and>
    (card {k. k < n \<and> pass_matches target rnd k} = 1000 \<and> pass_matches target rnd (n - 1) \<longrightarrow>
      simulation_loop target rnd 0 0 = Some (Inr (1000, int n)))"
proof -
  have total: "\<exists>hand b. deal_hand r = Inr hand \<and> target hand = Inr b" for r
    by (rule simulation_targets_total [OF assms])
  have 1: "matches = 1000 \<and> matches \<le> trials \<and>
      matches = int (card {k. k < nat trials \<and> pass_matches target rnd k}) \<and>
      (\<exists>x. simulation target rnd = Some (Inr x) \<and> true_div (100 * matches) trials = Inr x \<and>
         \<bar>x - real_of_int (100 * matches) / real_of_int trials\<bar>
           \<le> max (real_of_int (100 * matches) / real_of_int trials / 2 ^ 53) (1 / 2 ^ 1075))"
    if run: "simulation_loop target rnd 0 0 = Some (Inr (matches, trials))"
  proof -
    from simulation_loop_counts [OF run] have m: "matches = 1000" and t: "0 \<le> trials"
      and c: "matches = int (card {k. k < nat trials \<and> pass_matches target rnd k})"
      by auto
    have "card {k. k < nat trials \<and> pass_matches target rnd k} \<le> card {k. k < nat trials}"
      by (rule card_mono) auto
    then have le: "matches \<le> trials"
      using c t by simp
    have "0 < 100 * matches" "0 < trials" "100 * matches \<le> 100 * trials"
      using m le by simp_all
    from true_div_near [OF this] obtain x where x: "true_div (100 * matches) trials = Inr x"
      "\<bar>x - real_of_int (100 * matches) / real_of_int trials\<bar>
         \<le> max (real_of_int (100 * matches) / real_of_int trials / 2 ^ 53) (1 / 2 ^ 1075)"
      by blast
    have "simulation target rnd = Some (Inr x)"
      using run x(1) by (simp add: simulation_def estimated_probability_def)
    with m le c x show ?thesis
      by blast
  qed
  have 2: "\<exists>t. y = Inr (1000, t)" if run: "simulation_loop target rnd 0 0 = Some y"
  proof -
    from simulation_loop_no_error [OF total run] obtain m t where y: "y = Inr (m, t)"
      by blast
    with simulation_loop_counts [OF run] show ?thesis
      by simp
  qed
  have 3: "simulation_loop target rnd 0 0 = Some (Inr (1000, int n))"
    if "card {k. k < n \<and> pass_matches target rnd k} = 1000" "pass_matches target rnd (n - 1)"
  proof -
    have "n \<noteq> 0"
    proof
      assume "n = 0"
      with that(1) show False by simp
    qed
    with that show ?thesis
      using simulation_loop_stops [OF total, of "n - nat 0" n 0 0 rnd] by simp
  qed
  from 1 2 3 show ?thesis
    by blast
qed

theorem simulation_result_witness:
  "simulation_loop is_straight
     (\<lambda>t i. if t mod 3 = 2 then i else if i = 27 then 4 else if i = 26 then 2 else if i = 14 then 3
        else if i = 13 then 1 else i) 0 0 = Some (Inr (1000, 3000)) \<and>
   straight_simulation
     (\<lambda>t i. if t mod 3 = 2 then i else if i = 27 then 4 else if i = 26 then 2 else if i = 14 then 3
        else if i = 13 then 1 else i)
     = Some (Inr (4691249611844267 / 140737488355328)) \<and>
   simulation_loop is_full_house
     (\<lambda>t i. if i = 27 then 4 else if i = 26 then 2 else if i = 14 then 3
        else if i = 13 then 1 else i) 0 0 = Some (Inr (1000, 1000)) \<and>
   full_house_simulation
     (\<lambda>t i. if i = 27 then 4 else if i = 26 then 2 else if i = 14 then 3
        else if i = 13 then 1 else i) = Some (Inr 100)"
proof -
  let ?g = "\<lambda>(t :: nat) (i :: nat). if i = 27 then 4 else if i = 26 then 2 else if i = 14 then 3
        else if i = 13 then 1 else i"
  let ?r = "\<lambda>(t :: nat) (i :: nat). if t mod 3 = 2 then i else if i = 27 then 4 else if i = 26 then 2 else if i = 14 then 3
        else if i = 13 then 1 else i"
  have pr: "pass_matches is_straight ?r k = (k mod 3 = 2)" for k
  proof (cases "k mod 3 = 2")
    case True
    then have "?r k = (\<lambda>i. i)"
      by simp
    with True pass_matches_straight_id [of k] show ?thesis
      by (simp add: pass_matches_def)
  next
    case False
    then have "?r k = ?g k"
      by simp
    with False pass_no_straight_full_house [of k] show ?thesis
      by (simp add: pass_matches_def)
  qed
  have cs: "card {k. k < 3000 \<and> pass_matches is_straight ?r k} = 1000"
    by (simp only: pr card_every_third)
  have last: "pass_matches is_straight ?r (3000 - 1)"
    by (simp only: pr) simp
  have "{k. k < 1000 \<and> pass_matches is_full_house ?g k} = {..<1000}"
    using pass_matches_full_house by auto
  then have cf: "card {k. k < 1000 \<and> pass_matches is_full_house ?g k} = 1000"
    by simp
  have s: "simulation_loop is_straight ?r 0 0 = Some (Inr (1000, int 3000))"
    using simulation_result [of is_straight ?r 0 0 "Inr (0, 0)" 3000] cs last
    by blast
  have "\<exists>x. simulation is_straight ?r = Some (Inr x) \<and> true_div (100 * 1000) (int 3000) = Inr x"
    using simulation_result [of is_straight ?r 1000 "int 3000" "Inr (0, 0)" 0] s
    by blast
  moreover have "true_div (100 * 1000) (int 3000) = Inr (4691249611844267 / 140737488355328)"
    by (simp add: true_div_def float_exponent_def round_half_even_def Let_def)
  ultimately have e: "simulation is_straight ?r = Some (Inr (4691249611844267 / 140737488355328))"
    by auto
  have f: "simulation_loop is_full_house ?g 0 0 = Some (Inr (1000, int 1000))"
    using simulation_result [of is_full_house ?g 0 0 "Inr (0, 0)" 1000] cf
      pass_matches_full_house [of "1000 - 1"]
    by blast
  have "\<exists>x. simulation is_full_house ?g = Some (Inr x) \<and> true_div (100 * 1000) (int 1000) = Inr x"
    using simulation_result [of is_full_house ?g 1000 "int 1000" "Inr (0, 0)" 0] f
    by blast
  moreover have "true_div (100 * 1000) (int 1000) = Inr 100"
    by (simp add: true_div_def float_exponent_def round_half_even_def Let_def)
  ultimately have g: "simulation is_full_house ?g = Some (Inr 100)"
    by auto
  from s e f g show ?thesis
    by (simp add: straight_simulation_def full_house_simulation_def)
qed

end
